theory Spec2Isabelle
  imports Complex_Main "HOL-Library.Word"
begin

unbundle bit_operations_syntax

section \<open>The GF(2) solver (\<open>solve_switch_ids\<close>, identical in decoding.py and decoding_murmur.py)\<close>

text \<open>
  A packet equation as the dataclass \<open>PacketEquation\<close> has it. Python integers are
  unbounded, hence \<open>int\<close>. The Python set \<open>xor_set\<close> is represented by a list of its
  elements in iteration order; the solver only ORs one bit per element into a mask, so
  neither the order nor a repetition changes what it computes.
\<close>

record PacketEquation =
  pktid :: int
  final_pint :: int
  xor_set :: "int list"

text \<open>
  The solver returns \<open>None\<close> in two places: when there is no equation, and when a
  bit-plane is inconsistent, where it first prints the plane index. The error value
  keeps that index.
\<close>

datatype solve_error = NoEquations | Inconsistent nat

text \<open>\<open>mask |= (1 << i)\<close> for every \<open>i\<close> of the set with \<open>0 <= i < k\<close>.\<close>

definition build_mask :: "nat \<Rightarrow> int list \<Rightarrow> int" where
  "build_mask k xs =
     fold (\<lambda>i mask. if 0 \<le> i \<and> i < int k then mask OR push_bit (nat i) 1 else mask) xs 0"

text \<open>\<open>(a >> col) & 1\<close>\<close>

definition bit_at :: "int \<Rightarrow> nat \<Rightarrow> int" where
  "bit_at a col = drop_bit col a AND 1"

text \<open>The pivot search: the first \<open>r\<close> in \<open>range(row, m)\<close> whose bit \<open>col\<close> is set.\<close>

definition find_pivot :: "int list \<Rightarrow> nat \<Rightarrow> nat \<Rightarrow> nat \<Rightarrow> nat option" where
  "find_pivot A col row m = find (\<lambda>r. bit_at (A ! r) col \<noteq> 0) [row..<m]"

text \<open>One iteration of the elimination loop over \<open>r\<close>, and the loop itself.\<close>

definition elim_row :: "nat \<Rightarrow> nat \<Rightarrow> nat \<Rightarrow> int list \<times> int list \<Rightarrow> int list \<times> int list" where
  "elim_row col row r Ay =
     (case Ay of (A, y) \<Rightarrow>
        if r \<noteq> row \<and> bit_at (A ! r) col \<noteq> 0
        then (A[r := A ! r XOR A ! row], y[r := y ! r XOR y ! row])
        else (A, y))"

definition eliminate :: "nat \<Rightarrow> nat \<Rightarrow> nat \<Rightarrow> int list \<times> int list \<Rightarrow> int list \<times> int list" where
  "eliminate col row m Ay = fold (elim_row col row) [0..<m] Ay"

text \<open>
  The loop over the columns. The state is \<open>(A, y, pivot_row_for_col, row)\<close>; a column
  without pivot is skipped (\<open>continue\<close>), and the loop stops as soon as \<open>row == m\<close>
  (\<open>break\<close>).
\<close>

type_synonym gauss_state = "int list \<times> int list \<times> int list \<times> nat"

fun gauss_cols :: "nat \<Rightarrow> nat list \<Rightarrow> gauss_state \<Rightarrow> gauss_state" where
  "gauss_cols m [] s = s"
| "gauss_cols m (col # cols) (A, y, piv, row) =
     (case find_pivot A col row m of
        None \<Rightarrow> gauss_cols m cols (A, y, piv, row)
      | Some p \<Rightarrow>
          (let A1 = (A[row := A ! p])[p := A ! row];
               y1 = (y[row := y ! p])[p := y ! row];
               piv1 = piv[col := int row];
               Ay2 = eliminate col row m (A1, y1);
               row1 = row + 1
           in if row1 = m then (fst Ay2, snd Ay2, piv1, row1)
              else gauss_cols m cols (fst Ay2, snd Ay2, piv1, row1)))"

text \<open>The scan for a row \<open>0 = 1\<close>.\<close>

definition inconsistent :: "nat \<Rightarrow> int list \<Rightarrow> int list \<Rightarrow> bool" where
  "inconsistent m A y = list_ex (\<lambda>r. A ! r = 0 \<and> y ! r = 1) [0..<m]"

text \<open>Back-substitution: \<open>x_bits[col] = y[r] & 1\<close> where \<open>r\<close> is the pivot row of \<open>col\<close>.\<close>

definition back_subst :: "nat \<Rightarrow> int list \<Rightarrow> int list \<Rightarrow> int list" where
  "back_subst k piv y =
     fold (\<lambda>col xb. let r = piv ! col in if r \<noteq> - 1 then xb[col := y ! nat r AND 1] else xb)
          [0..<k] (replicate k 0)"

text \<open>\<open>switch_ids[i] |= (1 << bit)\<close> for every \<open>i\<close> with \<open>x_bits[i]\<close> set.\<close>

definition accumulate :: "nat \<Rightarrow> nat \<Rightarrow> int list \<Rightarrow> int list \<Rightarrow> int list" where
  "accumulate k b xb ids =
     fold (\<lambda>i ids. if xb ! i \<noteq> 0 then ids[i := ids ! i OR push_bit b 1] else ids) [0..<k] ids"

text \<open>One bit-plane: \<open>None\<close> when the plane is inconsistent, else its \<open>x_bits\<close>.\<close>

definition solve_plane :: "int list \<Rightarrow> PacketEquation list \<Rightarrow> nat \<Rightarrow> nat \<Rightarrow> int list option" where
  "solve_plane masks eqs k b =
     (let m = length eqs;
          y = map (\<lambda>eq. drop_bit b (final_pint eq) AND 1) eqs;
          s = gauss_cols m [0..<k] (masks, y, replicate k (- 1), 0)
      in case s of (A, y', piv, row) \<Rightarrow>
           if inconsistent m A y' then None else Some (back_subst k piv y'))"

fun solve_planes ::
  "int list \<Rightarrow> PacketEquation list \<Rightarrow> nat \<Rightarrow> nat list \<Rightarrow> int list \<Rightarrow> solve_error + int list" where
  "solve_planes masks eqs k [] ids = Inr ids"
| "solve_planes masks eqs k (b # bs) ids =
     (case solve_plane masks eqs k b of
        None \<Rightarrow> Inl (Inconsistent b)
      | Some xb \<Rightarrow> solve_planes masks eqs k bs (accumulate k b xb ids))"

definition solve_switch_ids :: "PacketEquation list \<Rightarrow> nat \<Rightarrow> nat \<Rightarrow> solve_error + int list" where
  "solve_switch_ids eqs num_hops id_bits =
     (if length eqs = 0 then Inl NoEquations
      else solve_planes (map (\<lambda>eq. build_mask num_hops (xor_set eq)) eqs) eqs num_hops
             [0..<id_bits] (replicate num_hops 0))"

section \<open>Decision policies\<close>

datatype action = ADD | REPLACE | SKIP

text \<open>\<open>_sign_bit\<close>, \<open>_p4_add_decision\<close> and \<open>_p4_replace_decision\<close> of decoding.py.\<close>

definition sign_bit :: "int \<Rightarrow> int" where
  "sign_bit x = drop_bit 31 x AND 1"

definition p4_add_decision :: "int \<Rightarrow> int \<Rightarrow> bool" where
  "p4_add_decision hash_id a_prob =
     (let h = hash_id AND 0xFFFFFFFF;
          a = a_prob AND 0xFFFFFFFF;
          res = (h - a) AND 0xFFFFFFFF;
          h_sign = sign_bit h;
          a_sign = sign_bit a;
          res_sign = sign_bit res;
          msb = (if (h_sign = 0 \<and> a_sign = 0) \<or> (h_sign = 1 \<and> a_sign = 1) then 1 else 0 :: int)
      in (h_sign = 0 \<and> a_sign = 1) \<or> (msb = 1 \<and> res_sign = 1))"

definition p4_replace_decision :: "int \<Rightarrow> int \<Rightarrow> bool" where
  "p4_replace_decision hash_id cum_prob =
     (let h = hash_id AND 0xFFFFFFFF;
          c = cum_prob AND 0xFFFFFFFF;
          res = (c - h) AND 0xFFFFFFFF;
          h_sign = sign_bit h;
          c_sign = sign_bit c;
          msb_r = (if (c_sign = 0 \<and> h_sign = 0) \<or> (c_sign = 1 \<and> h_sign = 1) then 1 else 0 :: int)
      in (h_sign = 0 \<and> c_sign = 0) \<or> (msb_r = 1 \<and> c_sign = 1))"

text \<open>
  Policy B, as \<open>reconstruct_xor_sets\<close> of decoding.py branches on the two decisions, and
  Policy A, as \<open>simulate_xor_degree_distribution\<close> of decoding_murmur.py compares the
  hash with the two thresholds.
\<close>

definition policy_b :: "int \<Rightarrow> int \<Rightarrow> int \<Rightarrow> action" where
  "policy_b hash_id a_prob cum_prob =
     (if p4_add_decision hash_id a_prob then ADD
      else if p4_replace_decision hash_id cum_prob then REPLACE
      else SKIP)"

definition policy_a :: "int \<Rightarrow> int \<Rightarrow> int \<Rightarrow> action" where
  "policy_a hash_id add_thr rep_thr =
     (if hash_id < add_thr then ADD
      else if hash_id > rep_thr then REPLACE
      else SKIP)"

text \<open>
  The rule the specification words for REPLACE: the sign-overflow rule of the ADD
  decision, applied to the subtraction \<open>replace_threshold - h\<close>. It is written from the
  specification, to be compared with \<open>p4_replace_decision\<close>.
\<close>

definition replace_rule_spec :: "int \<Rightarrow> int \<Rightarrow> bool" where
  "replace_rule_spec h replace_threshold =
     (let res = (replace_threshold - h) mod 2 ^ 32;
          h_sign = sign_bit h;
          c_sign = sign_bit replace_threshold;
          res_sign = sign_bit res
      in (c_sign = 0 \<and> h_sign = 1) \<or> (c_sign = h_sign \<and> res_sign = 1))"

section \<open>Hash oracles\<close>

text \<open>Errors raised by the Python code that the model keeps as values.\<close>

datatype py_error = IndexError | StructError | ZeroDivisionError

text \<open>
  The avalanche-mix hash of decoding_murmur.py and sim_murmur.py: \<open>mix32\<close> and
  \<open>recipe_hash_v4\<close> (here \<open>recipe_hash_v4_murmur\<close>, the name being taken by the checksum
  hash), on Python integers with the masks written out.
\<close>

definition mix32 :: "int \<Rightarrow> int" where
  "mix32 x0 =
     (let x1 = x0 AND 0xFFFFFFFF;
          x2 = x1 XOR drop_bit 16 x1;
          x3 = (x2 * 0x7FEB352D) AND 0xFFFFFFFF;
          x4 = x3 XOR drop_bit 15 x3;
          x5 = (x4 * 0x846CA68B) AND 0xFFFFFFFF
      in x5 XOR drop_bit 16 x5)"

definition recipe_hash_v4_murmur :: "int \<Rightarrow> int \<Rightarrow> int" where
  "recipe_hash_v4_murmur pkt hopid =
     (let pid = mix32 (pkt AND 0xFFFFFFFF);
          combined = (pid XOR ((hopid * 0x9E3779B9) AND 0xFFFFFFFF) XOR 0xA5A5A5A5) AND 0xFFFFFFFF
      in mix32 combined)"

text \<open>
  The checksum hash of decoding.py. \<open>struct.pack("!IIBHB", ...)\<close> writes each field
  big-endian on 4, 4, 1, 2 and 1 bytes and raises \<open>struct.error\<close> when a value does not
  fit its field; \<open>zlib.crc32\<close> is the reflected CRC-32 with polynomial \<open>0xEDB88320\<close>.
\<close>

definition be_bytes :: "nat \<Rightarrow> int \<Rightarrow> int list" where
  "be_bytes n v = map (\<lambda>i. drop_bit (8 * (n - 1 - i)) v AND 0xFF) [0..<n]"

definition pack_field :: "nat \<Rightarrow> int \<Rightarrow> py_error + int list" where
  "pack_field n v = (if 0 \<le> v \<and> v < 2 ^ (8 * n) then Inr (be_bytes n v) else Inl StructError)"

definition struct_pack_IIBHB :: "int \<Rightarrow> int \<Rightarrow> int \<Rightarrow> int \<Rightarrow> int \<Rightarrow> py_error + int list" where
  "struct_pack_IIBHB a b c d e =
     (case pack_field 4 a of Inl err \<Rightarrow> Inl err | Inr ba \<Rightarrow>
      case pack_field 4 b of Inl err \<Rightarrow> Inl err | Inr bb \<Rightarrow>
      case pack_field 1 c of Inl err \<Rightarrow> Inl err | Inr bc \<Rightarrow>
      case pack_field 2 d of Inl err \<Rightarrow> Inl err | Inr bd \<Rightarrow>
      case pack_field 1 e of Inl err \<Rightarrow> Inl err | Inr be \<Rightarrow>
        Inr (ba @ bb @ bc @ bd @ be))"

definition crc_bit :: "int \<Rightarrow> int" where
  "crc_bit c = (if c AND 1 \<noteq> 0 then drop_bit 1 c XOR 0xEDB88320 else drop_bit 1 c)"

definition crc_byte :: "int \<Rightarrow> int \<Rightarrow> int" where
  "crc_byte byte c = (crc_bit ^^ 8) (c XOR byte)"

definition zlib_crc32 :: "int list \<Rightarrow> int" where
  "zlib_crc32 data = fold crc_byte data 0xFFFFFFFF XOR 0xFFFFFFFF"

text \<open>\<open>ipv4_to_u32\<close> on the four octets of the dotted address, and the module constants.\<close>

definition ipv4_to_u32 :: "int \<Rightarrow> int \<Rightarrow> int \<Rightarrow> int \<Rightarrow> int" where
  "ipv4_to_u32 a b c d = push_bit 24 a + push_bit 16 b + push_bit 8 c + d"

definition SRC_IP_U32 :: int where
  "SRC_IP_U32 = ipv4_to_u32 10 0 0 1"

definition DST_IP_U32 :: int where
  "DST_IP_U32 = ipv4_to_u32 10 0 0 2"

definition IP_PROTO_RECIPE :: int where
  "IP_PROTO_RECIPE = 146"

definition recipe_hash_v4 :: "int \<Rightarrow> int \<Rightarrow> py_error + int" where
  "recipe_hash_v4 pkt hopid =
     (let proto = IP_PROTO_RECIPE;
          identification = pkt
      in case struct_pack_IIBHB SRC_IP_U32 DST_IP_U32 proto identification hopid of
           Inl err \<Rightarrow> Inl err
         | Inr data \<Rightarrow> Inr (zlib_crc32 data AND 0xFFFFFFFF))"

section \<open>Path simulation\<close>

text \<open>
  The two \<open>APA\<close> dataclasses: decoding.py and decoding_murmur.py (whose fields
  \<open>max_hops\<close> and \<open>max_degree\<close> carry the prefix \<open>m_\<close> here). In the functions below the
  variables \<open>pktid\<close>, \<open>max_degree\<close> and \<open>xor_set\<close> of the source are written \<open>pkt\<close>,
  \<open>max_deg\<close> and \<open>xset\<close>, the names themselves being fields. Counts and indices that the
  source never makes negative (\<open>num_hops\<close>, \<open>max_degree\<close>, \<open>id_bits\<close>, \<open>hopid\<close>,
  \<open>xor_degree\<close>) are natural numbers.
\<close>

record APA =
  max_hops :: nat
  max_degree :: nat
  probs_a :: "int list"
  probs_cum :: "int list"

record APA_murmur =
  m_max_hops :: nat
  m_max_degree :: nat
  add_thresh :: "int list"
  replace_thresh :: "int list"

text \<open>
  The hop loop of \<open>reconstruct_xor_sets\<close> (decoding.py) for one packet. The state is
  \<open>(xor_degree, xor_set)\<close>. An index past \<open>probs_a\<close> ends the loop; reading past
  \<open>probs_cum\<close>, a value the hash cannot pack and \<open>% 0\<close> raise.
\<close>

fun reconstruct_hops ::
  "APA \<Rightarrow> nat \<Rightarrow> int \<Rightarrow> nat list \<Rightarrow> nat \<times> int list \<Rightarrow> py_error + nat \<times> int list" where
  "reconstruct_hops apa max_deg pkt [] s = Inr s"
| "reconstruct_hops apa max_deg pkt (hopid # hops) (xor_degree, xset) =
     (let idx = hopid * max_deg + xor_degree in
      if idx \<ge> length (probs_a apa) then Inr (xor_degree, xset)
      else if idx \<ge> length (probs_cum apa) then Inl IndexError
      else
        let a_prob = probs_a apa ! idx;
            cum_prob = probs_cum apa ! idx
        in case recipe_hash_v4 pkt (int hopid) of
             Inl err \<Rightarrow> Inl err
           | Inr hash_id \<Rightarrow>
               if p4_add_decision hash_id a_prob then
                 (if max_deg = 0 then Inl ZeroDivisionError
                  else reconstruct_hops apa max_deg pkt hops
                         ((xor_degree + 1) mod max_deg,
                          if int hopid \<in> set xset then removeAll (int hopid) xset
                          else int hopid # xset))
               else if p4_replace_decision hash_id cum_prob then
                 reconstruct_hops apa max_deg pkt hops (1, [int hopid])
               else reconstruct_hops apa max_deg pkt hops (xor_degree, xset))"

definition reconstruct_packet :: "APA \<Rightarrow> nat \<Rightarrow> nat \<Rightarrow> int \<Rightarrow> py_error + nat \<times> int list" where
  "reconstruct_packet apa num_hops max_deg pkt =
     reconstruct_hops apa max_deg pkt [0..<num_hops] (0, [])"

text \<open>
  The hop loop of \<open>simulate_xor_degree_distribution\<close> (decoding_murmur.py) for one
  packet, in generation mode. The state is \<open>(xor_degree, xor_set, pint)\<close>. The identifier
  vector \<open>switch_id\<close>, which the source draws from a seeded generator, is a parameter.
\<close>

fun simulate_hops ::
  "APA_murmur \<Rightarrow> nat \<Rightarrow> int list \<Rightarrow> int \<Rightarrow> nat list \<Rightarrow> nat \<times> int list \<times> int
     \<Rightarrow> py_error + nat \<times> int list \<times> int" where
  "simulate_hops apa max_deg switch_id pkt [] s = Inr s"
| "simulate_hops apa max_deg switch_id pkt (hopid # hops) (xor_degree, xset, pint) =
     (let idx = hopid * max_deg + xor_degree in
      if idx \<ge> length (add_thresh apa) then Inr (xor_degree, xset, pint)
      else if idx \<ge> length (replace_thresh apa) then Inl IndexError
      else
        let add_thr = add_thresh apa ! idx;
            rep_thr = replace_thresh apa ! idx;
            hash_id = recipe_hash_v4_murmur pkt (int hopid) AND 0xFFFFFFFF
        in if hash_id < add_thr then
             (if hopid \<ge> length switch_id then Inl IndexError
              else simulate_hops apa max_deg switch_id pkt hops
                     (xor_degree + 1, List.insert (int hopid) xset, pint XOR switch_id ! hopid))
           else if hash_id > rep_thr then
             (if hopid \<ge> length switch_id then Inl IndexError
              else simulate_hops apa max_deg switch_id pkt hops
                     (1, [int hopid], switch_id ! hopid))
           else simulate_hops apa max_deg switch_id pkt hops (xor_degree, xset, pint))"

definition simulate_packet ::
  "APA_murmur \<Rightarrow> nat \<Rightarrow> nat \<Rightarrow> int list \<Rightarrow> int \<Rightarrow> py_error + PacketEquation" where
  "simulate_packet apa num_hops max_deg switch_id pkt =
     (case simulate_hops apa max_deg switch_id pkt [0..<num_hops] (0, [], 0) of
        Inl err \<Rightarrow> Inl err
      | Inr (xor_degree, xset, pint) \<Rightarrow>
          Inr \<lparr>pktid = pkt, final_pint = pint, xor_set = xset\<rparr>)"

text \<open>The loop over the packets; the result is the list \<open>equations\<close>.\<close>

fun simulate_packets ::
  "APA_murmur \<Rightarrow> nat \<Rightarrow> nat \<Rightarrow> int list \<Rightarrow> nat list \<Rightarrow> py_error + PacketEquation list" where
  "simulate_packets apa num_hops max_deg switch_id [] = Inr []"
| "simulate_packets apa num_hops max_deg switch_id (p # ps) =
     (case simulate_packet apa num_hops max_deg switch_id (int p) of
        Inl err \<Rightarrow> Inl err
      | Inr eq \<Rightarrow>
          (case simulate_packets apa num_hops max_deg switch_id ps of
             Inl err \<Rightarrow> Inl err
           | Inr eqs \<Rightarrow> Inr (eq # eqs)))"

definition simulate_xor_degree_distribution ::
  "nat \<Rightarrow> APA_murmur \<Rightarrow> nat \<Rightarrow> nat \<Rightarrow> int list \<Rightarrow> py_error + PacketEquation list" where
  "simulate_xor_degree_distribution num_packets apa num_hops max_deg switch_id =
     simulate_packets apa num_hops max_deg switch_id [0..<num_packets]"

section \<open>The APA loader\<close>

text \<open>
  A Python float: a finite double, given by its value, an infinity or a NaN. The loader
  only multiplies floats by \<open>2**32\<close> and converts the product with \<open>int()\<close>; scaling a
  double by a power of two is exact unless it overflows to an infinity, so the value of a
  finite product is the product of the values.
\<close>

datatype pyfloat = Finite real | PosInf | NegInf | NaN

text \<open>
  What \<open>load_apa\<close> can raise: its two \<open>ValueError\<close>s, whose messages start with
  \<open>Line {hop_idx}\<close> (the second field is the count they print), the \<open>ValueError\<close> of
  \<open>float()\<close> on a field that is no number, and the \<open>OverflowError\<close> and \<open>ValueError\<close> of
  \<open>int()\<close> on an infinity and on a NaN.
\<close>

datatype load_error =
    OddColumns nat nat
  | TooManyDegrees nat nat nat
  | FloatError string
  | IntOverflow
  | IntNaN

text \<open>The largest finite double, \<open>p * (2**32)\<close>, \<open>int(...)\<close> and \<open>int(p * (2**32)) & 0xFFFFFFFF\<close>.\<close>

definition DBL_MAX :: real where
  "DBL_MAX = (2 ^ 53 - 1) * 2 ^ 971"

definition scale32 :: "pyfloat \<Rightarrow> pyfloat" where
  "scale32 p =
     (case p of
        Finite r \<Rightarrow>
          if r * 2 ^ 32 > DBL_MAX then PosInf
          else if r * 2 ^ 32 < - DBL_MAX then NegInf
          else Finite (r * 2 ^ 32)
      | PosInf \<Rightarrow> PosInf
      | NegInf \<Rightarrow> NegInf
      | NaN \<Rightarrow> NaN)"

definition py_int :: "pyfloat \<Rightarrow> load_error + int" where
  "py_int p =
     (case p of
        Finite r \<Rightarrow> Inr (if 0 \<le> r then \<lfloor>r\<rfloor> else \<lceil>r\<rceil>)
      | PosInf \<Rightarrow> Inl IntOverflow
      | NegInf \<Rightarrow> Inl IntOverflow
      | NaN \<Rightarrow> Inl IntNaN)"

definition fixed32 :: "pyfloat \<Rightarrow> load_error + int" where
  "fixed32 p = (case py_int (scale32 p) of Inl err \<Rightarrow> Inl err | Inr n \<Rightarrow> Inr (n AND 0xFFFFFFFF))"

text \<open>
  \<open>str.strip()\<close> and \<open>str.split(",")\<close> on strings of 8-bit characters; \<open>is_space\<close> lists
  the characters below 256 that Python counts as whitespace.
\<close>

definition is_space :: "char \<Rightarrow> bool" where
  "is_space c = (let n = (of_char c :: nat) in
      (9 \<le> n \<and> n \<le> 13) \<or> (28 \<le> n \<and> n \<le> 32) \<or> n = 133 \<or> n = 160)"

definition strip :: "string \<Rightarrow> string" where
  "strip s = rev (dropWhile is_space (rev (dropWhile is_space s)))"

fun split_on :: "char \<Rightarrow> string \<Rightarrow> string list" where
  "split_on c [] = [[]]"
| "split_on c (x # xs) =
     (if x = c then [] # split_on c xs
      else (case split_on c xs of w # ws \<Rightarrow> (x # w) # ws | [] \<Rightarrow> [[x]]))"

text \<open>\<open>parts = [p.strip() for p in line.split(",") if p.strip() != ""]\<close>\<close>

definition apa_parts :: "string \<Rightarrow> string list" where
  "apa_parts line = filter (\<lambda>p. p \<noteq> []) (map strip (split_on CHR '','' line))"

text \<open>
  The loop over the degrees of one line. \<open>float()\<close> is the parameter \<open>pf\<close>: \<open>None\<close> where
  it raises. The state is the pair of threshold arrays.
\<close>

fun load_degrees ::
  "(string \<Rightarrow> pyfloat option) \<Rightarrow> string list \<Rightarrow> nat \<Rightarrow> nat \<Rightarrow> nat list \<Rightarrow>
     int list \<times> int list \<Rightarrow> load_error + int list \<times> int list" where
  "load_degrees pf parts hop_idx max_deg [] tabs = Inr tabs"
| "load_degrees pf parts hop_idx max_deg (d # ds) (pa, pc) =
     (case pf (parts ! (2 * d)) of
        None \<Rightarrow> Inl (FloatError (parts ! (2 * d)))
      | Some p_add \<Rightarrow>
     (case pf (parts ! (2 * d + 1)) of
        None \<Rightarrow> Inl (FloatError (parts ! (2 * d + 1)))
      | Some p_cum \<Rightarrow>
     (let idx = hop_idx * max_deg + d in
      case fixed32 p_add of
        Inl err \<Rightarrow> Inl err
      | Inr va \<Rightarrow>
     (case fixed32 p_cum of
        Inl err \<Rightarrow> Inl err
      | Inr vc \<Rightarrow> load_degrees pf parts hop_idx max_deg ds (pa[idx := va], pc[idx := vc])))))"

text \<open>The loop over \<open>enumerate(lines)\<close>.\<close>

fun load_lines ::
  "(string \<Rightarrow> pyfloat option) \<Rightarrow> nat \<Rightarrow> (nat \<times> string) list \<Rightarrow>
     int list \<times> int list \<Rightarrow> load_error + int list \<times> int list" where
  "load_lines pf max_deg [] tabs = Inr tabs"
| "load_lines pf max_deg ((hop_idx, line) # rest) tabs =
     (let parts = apa_parts line in
      if length parts mod 2 \<noteq> 0 then Inl (OddColumns hop_idx (length parts))
      else
        let num_degrees = length parts div 2 in
        if num_degrees > max_deg then Inl (TooManyDegrees hop_idx num_degrees max_deg)
        else (case load_degrees pf parts hop_idx max_deg [0..<num_degrees] tabs of
                Inl err \<Rightarrow> Inl err
              | Inr tabs' \<Rightarrow> load_lines pf max_deg rest tabs'))"

text \<open>
  The lines kept by the reading loop (stripped, blank ones skipped), and the body that the
  two \<open>load_apa\<close> functions share word for word up to the names of the arrays. The file is
  given by the list of its lines.
\<close>

definition nonblank_lines :: "string list \<Rightarrow> string list" where
  "nonblank_lines raw = filter (\<lambda>l. l \<noteq> []) (map strip raw)"

definition load_tables ::
  "(string \<Rightarrow> pyfloat option) \<Rightarrow> string list \<Rightarrow> nat \<Rightarrow> load_error + nat \<times> int list \<times> int list" where
  "load_tables pf raw max_deg =
     (let lines = nonblank_lines raw;
          max_hops = length lines
      in case load_lines pf max_deg (List.enumerate 0 lines)
                (replicate (max_hops * max_deg) 0, replicate (max_hops * max_deg) 0) of
           Inl err \<Rightarrow> Inl err
         | Inr (pa, pc) \<Rightarrow> Inr (max_hops, pa, pc))"

text \<open>\<open>load_apa\<close> of decoding.py and of decoding_murmur.py.\<close>

definition load_apa :: "(string \<Rightarrow> pyfloat option) \<Rightarrow> string list \<Rightarrow> nat \<Rightarrow> load_error + APA" where
  "load_apa pf raw max_deg =
     (case load_tables pf raw max_deg of
        Inl err \<Rightarrow> Inl err
      | Inr (mh, pa, pc) \<Rightarrow>
          Inr \<lparr>max_hops = mh, max_degree = max_deg, probs_a = pa, probs_cum = pc\<rparr>)"

definition load_apa_murmur ::
  "(string \<Rightarrow> pyfloat option) \<Rightarrow> string list \<Rightarrow> nat \<Rightarrow> load_error + APA_murmur" where
  "load_apa_murmur pf raw max_deg =
     (case load_tables pf raw max_deg of
        Inl err \<Rightarrow> Inl err
      | Inr (mh, ta, tr) \<Rightarrow>
          Inr \<lparr>m_max_hops = mh, m_max_degree = max_deg, add_thresh = ta, replace_thresh = tr\<rparr>)"

text \<open>
  The values of Python's \<open>float()\<close> on the field strings of the examples below: four
  fractions that are exact doubles, \<open>inf\<close>, and the decimal digits of \<open>2 ^ 1000\<close>, which
  is an exact double too. No other string occurs in the examples except \<open>x\<close>, on which
  \<open>float()\<close> raises.
\<close>

definition float_table :: "string \<Rightarrow> pyfloat option" where
  "float_table s =
     (if s = ''0.5'' then Some (Finite (1 / 2))
      else if s = ''0.75'' then Some (Finite (3 / 4))
      else if s = ''0'' then Some (Finite 0)
      else if s = ''1'' then Some (Finite 1)
      else if s = ''inf'' then Some PosInf
      else if s = ''10715086071862673209484250490600018105614048117055336074437503883703510511249361224931983788156958581275946729175531468251871452856923140435984577574698574803934567774824230985421074605062371141877954182153046474983581941267398767559165543946077062914571196477686542167660429831652624386837205668069376''
        then Some (Finite (2 ^ 1000))
      else None)"

text \<open>
  Vocabulary for the loader's contract: a line the loader rejects, a line whose fields all
  parse and encode, the error raised for a rejected line, and the line number an error
  carries.
\<close>

definition line_offending :: "nat \<Rightarrow> string \<Rightarrow> bool" where
  "line_offending max_deg line =
     (length (apa_parts line) mod 2 \<noteq> 0 \<or> length (apa_parts line) div 2 > max_deg)"

definition line_parses :: "(string \<Rightarrow> pyfloat option) \<Rightarrow> string \<Rightarrow> bool" where
  "line_parses pf line = (\<forall>f\<in>set (apa_parts line). \<exists>p v. pf f = Some p \<and> fixed32 p = Inr v)"

definition line_error :: "nat \<Rightarrow> nat \<Rightarrow> string \<Rightarrow> load_error" where
  "line_error max_deg i line =
     (if length (apa_parts line) mod 2 \<noteq> 0 then OddColumns i (length (apa_parts line))
      else TooManyDegrees i (length (apa_parts line) div 2) max_deg)"

fun error_line :: "load_error \<Rightarrow> nat option" where
  "error_line (OddColumns i n) = Some i"
| "error_line (TooManyDegrees i n m) = Some i"
| "error_line (FloatError s) = None"
| "error_line IntOverflow = None"
| "error_line IntNaN = None"

section \<open>Linear systems over GF(2)\<close>

text \<open>
  The vocabulary in which the properties of the solver are stated. An assignment of one
  bit to every hop is a function \<open>x\<close>; \<open>dotp k a x\<close> is the GF(2) product of the row mask
  \<open>a\<close> with \<open>x\<close> over the hops below \<open>k\<close>, and \<open>sat k A y x\<close> says that \<open>x\<close> solves the
  system with row masks \<open>A\<close> and right-hand sides \<open>y\<close> (a right-hand side counts by its
  parity).
\<close>

fun dotp :: "nat \<Rightarrow> int \<Rightarrow> (nat \<Rightarrow> bool) \<Rightarrow> bool" where
  "dotp 0 a x = False"
| "dotp (Suc k) a x = (dotp k a x \<noteq> (bit a k \<and> x k))"

definition sat :: "nat \<Rightarrow> int list \<Rightarrow> int list \<Rightarrow> (nat \<Rightarrow> bool) \<Rightarrow> bool" where
  "sat k A y x = (\<forall>r < length A. dotp k (A ! r) x = odd (y ! r))"

text \<open>
  One pivot step, described row by row: \<open>swapped\<close> is the row list after the exchange of
  rows \<open>row\<close> and \<open>p\<close>, and \<open>stepped\<close> relates the lists before the step with the lists
  after the exchange and the elimination of column \<open>c\<close>.
\<close>

definition swapped :: "'a list \<Rightarrow> nat \<Rightarrow> nat \<Rightarrow> nat \<Rightarrow> 'a" where
  "swapped A row p r = (if r = p then A ! row else if r = row then A ! p else A ! r)"

definition stepped ::
  "nat \<Rightarrow> nat \<Rightarrow> nat \<Rightarrow> nat \<Rightarrow> int list \<Rightarrow> int list \<Rightarrow> int list \<Rightarrow> int list \<Rightarrow> bool" where
  "stepped m c row p A y A2 y2 =
     (length A2 = m \<and> length y2 = m \<and>
      (\<forall>r<m. A2 ! r = (if r \<noteq> row \<and> bit (swapped A row p r) c
                        then swapped A row p r XOR A ! p else swapped A row p r)) \<and>
      (\<forall>r<m. y2 ! r = (if r \<noteq> row \<and> bit (swapped A row p r) c
                        then swapped y row p r XOR y ! p else swapped y row p r)))"

text \<open>
  The invariant of the loop over the columns, before column \<open>c\<close> is visited: the row
  masks have bits only below \<open>k\<close> and the right-hand sides are bits (\<open>wf_rows\<close>); the
  system has the solutions of the initial one; every recorded pivot row holds the only
  set bit of its column, rows and pivot columns correspond one to one, and no column
  from \<open>c\<close> on has a pivot (\<open>wf_piv\<close>); the rows from \<open>row\<close> on are zero in the columns
  below \<open>c\<close> (\<open>low_clear\<close>).
\<close>

definition wf_rows :: "nat \<Rightarrow> nat \<Rightarrow> int list \<Rightarrow> int list \<Rightarrow> bool" where
  "wf_rows m k A y =
     (length A = m \<and> length y = m \<and> (\<forall>r<m. \<forall>j. bit (A ! r) j \<longrightarrow> j < k) \<and>
      (\<forall>r<m. y ! r = 0 \<or> y ! r = 1))"

definition pivot_at :: "nat \<Rightarrow> int list \<Rightarrow> nat \<Rightarrow> nat \<Rightarrow> bool" where
  "pivot_at m A j r = (r < m \<and> bit (A ! r) j \<and> (\<forall>r'<m. r' \<noteq> r \<longrightarrow> \<not> bit (A ! r') j))"

definition wf_piv :: "nat \<Rightarrow> nat \<Rightarrow> nat \<Rightarrow> int list \<Rightarrow> int list \<Rightarrow> nat \<Rightarrow> bool" where
  "wf_piv m k c A piv row =
     (length piv = k \<and>
      (\<forall>j<k. piv ! j = - 1 \<or> (\<exists>r<row. piv ! j = int r \<and> j < c \<and> pivot_at m A j r)) \<and>
      (\<forall>j<k. c \<le> j \<longrightarrow> piv ! j = - 1) \<and>
      (\<forall>r<row. \<exists>j<k. piv ! j = int r) \<and>
      (\<forall>j<k. \<forall>j'<k. piv ! j = piv ! j' \<longrightarrow> piv ! j \<noteq> - 1 \<longrightarrow> j = j'))"

definition low_clear :: "nat \<Rightarrow> nat \<Rightarrow> int list \<Rightarrow> nat \<Rightarrow> bool" where
  "low_clear m c A row = (\<forall>r<m. row \<le> r \<longrightarrow> (\<forall>j<c. \<not> bit (A ! r) j))"

definition ginv :: "nat \<Rightarrow> nat \<Rightarrow> int list \<Rightarrow> int list \<Rightarrow> nat \<Rightarrow> gauss_state \<Rightarrow> bool" where
  "ginv m k A0 y0 c s =
     (case s of (A, y, piv, row) \<Rightarrow>
        wf_rows m k A y \<and> row \<le> m \<and> (\<forall>x. sat k A y x = sat k A0 y0 x) \<and>
        wf_piv m k c A piv row \<and> low_clear m c A row)"

text \<open>
  The right-hand sides of bit-plane \<open>b\<close> and the row masks, as \<open>solve_switch_ids\<close> builds
  them; the XOR of the identifiers \<open>ids\<close> over the hops below \<open>k\<close> that occur in the set
  \<open>S\<close>; and the invariant of the loop over the bit-planes: the identifiers have no bit
  from plane \<open>b0\<close> on, and their bits solve every plane below \<open>b0\<close>.
\<close>

definition plane_rhs :: "PacketEquation list \<Rightarrow> nat \<Rightarrow> int list" where
  "plane_rhs eqs b = map (\<lambda>eq. drop_bit b (final_pint eq) AND 1) eqs"

definition masks_of :: "nat \<Rightarrow> PacketEquation list \<Rightarrow> int list" where
  "masks_of k eqs = map (\<lambda>eq. build_mask k (xor_set eq)) eqs"

fun xor_hops :: "int list \<Rightarrow> int list \<Rightarrow> nat \<Rightarrow> int" where
  "xor_hops ids S 0 = 0"
| "xor_hops ids S (Suc c) = (if int c \<in> set S then xor_hops ids S c XOR ids ! c else xor_hops ids S c)"

definition planes_ok :: "nat \<Rightarrow> PacketEquation list \<Rightarrow> nat \<Rightarrow> int list \<Rightarrow> bool" where
  "planes_ok k eqs b0 ids =
     (length ids = k \<and> (\<forall>i<k. \<forall>b. bit (ids ! i) b \<longrightarrow> b < b0) \<and>
      (\<forall>b<b0. sat k (masks_of k eqs) (plane_rhs eqs b) (\<lambda>j. bit (ids ! j) b)))"

text \<open>
  The invariant of the generation-mode hop loop before hop \<open>h\<close>: the set holds only hops
  below \<open>h\<close>, and the accumulator is the XOR of the identifiers over the set, bit by bit.
\<close>

definition sim_inv :: "nat \<Rightarrow> int list \<Rightarrow> nat \<Rightarrow> nat \<times> int list \<times> int \<Rightarrow> bool" where
  "sim_inv k ids h s =
     (case s of (d, S, pint) \<Rightarrow>
        (\<forall>i\<in>set S. i < int h) \<and>
        (\<forall>b. bit pint b = dotp k (build_mask k S) (\<lambda>j. bit (ids ! j) b)))"

text \<open>
  The row masks have rank \<open>k\<close> over GF(2): their \<open>k\<close> columns are linearly independent,
  that is, only the zero assignment is orthogonal to every row.
\<close>

definition full_rank :: "nat \<Rightarrow> int list \<Rightarrow> bool" where
  "full_rank k masks = (\<forall>x. (\<forall>a\<in>set masks. \<not> dotp k a x) \<longrightarrow> (\<forall>c<k. \<not> x c))"

text \<open>Index \<open>k\<close> lies in the cells of hop \<open>i\<close> of a flattened array.\<close>

definition in_row :: "nat \<Rightarrow> nat \<Rightarrow> nat \<Rightarrow> bool" where
  "in_row md i k = (i * md \<le> k \<and> k < i * md + md)"

section \<open>Correctness of the elimination\<close>

lemma bit_at_iff: "bit_at a c \<noteq> 0 \<longleftrightarrow> bit a c"
  by (simp add: bit_at_def and_one_eq bit_iff_odd_drop_bit odd_iff_mod_2_eq_one)

lemma dotp_xor: "dotp k (a XOR b) x = (dotp k a x \<noteq> dotp k b x)"
  by (induction k) (auto simp: bit_xor_iff)

lemma dotp_zero: "dotp k 0 x = False"
  by (induction k) auto

lemma dotp_none: "(\<And>j. j < k \<Longrightarrow> \<not> (bit a j \<and> x j)) \<Longrightarrow> dotp k a x = False"
  by (induction k) auto

lemma dotp_single:
  "c < k \<Longrightarrow> (\<And>j. j < k \<Longrightarrow> j \<noteq> c \<Longrightarrow> \<not> (bit a j \<and> x j)) \<Longrightarrow> dotp k a x = (bit a c \<and> x c)"
proof (induction k)
  case 0
  then show ?case by simp
next
  case (Suc k)
  show ?case
  proof (cases "c = k")
    case True
    have "dotp k a x = False"
      by (rule dotp_none) (use Suc.prems True in auto)
    then show ?thesis using True by simp
  next
    case False
    then have "c < k" using Suc.prems by simp
    moreover have "\<not> (bit a k \<and> x k)" using Suc.prems(2) [of k] False by simp
    ultimately show ?thesis using Suc by auto
  qed
qed

lemma map_upt_update:
  "n < m \<Longrightarrow> (map f [0..<m])[n := v] = map (\<lambda>r. if r = n then v else f r) [0..<m]"
  by (rule nth_equalityI) (simp_all add: nth_list_update)

lemma elim_fold:
  assumes "length A = m" "length y = m" "row < m" "n \<le> m"
  shows "fold (elim_row col row) [0..<n] (A, y) =
     (map (\<lambda>r. if r < n \<and> r \<noteq> row \<and> bit (A ! r) col then A ! r XOR A ! row else A ! r) [0..<m],
      map (\<lambda>r. if r < n \<and> r \<noteq> row \<and> bit (A ! r) col then y ! r XOR y ! row else y ! r) [0..<m])"
  using assms(4)
proof (induction n)
  case 0
  then show ?case using assms(1,2) by (auto simp: list_eq_iff_nth_eq)
next
  case (Suc n)
  let ?f = "\<lambda>r. if r < n \<and> r \<noteq> row \<and> bit (A ! r) col then A ! r XOR A ! row else A ! r"
  let ?g = "\<lambda>r. if r < n \<and> r \<noteq> row \<and> bit (A ! r) col then y ! r XOR y ! row else y ! r"
  have n: "n < m" using Suc.prems by simp
  have st: "fold (elim_row col row) [0..<Suc n] (A, y) = elim_row col row n (map ?f [0..<m], map ?g [0..<m])"
    using Suc by simp
  have An: "map ?f [0..<m] ! n = A ! n" "map ?g [0..<m] ! n = y ! n" using n by simp_all
  have Ar: "map ?f [0..<m] ! row = A ! row" "map ?g [0..<m] ! row = y ! row" using assms(3) by simp_all
  show ?case
  proof (cases "n \<noteq> row \<and> bit (A ! n) col")
    case True
    have e1: "elim_row col row n (map ?f [0..<m], map ?g [0..<m]) =
       ((map ?f [0..<m])[n := A ! n XOR A ! row], (map ?g [0..<m])[n := y ! n XOR y ! row])"
      using True by (simp only: elim_row_def prod.case An Ar bit_at_iff if_True simp_thms)
    have e2: "(map ?f [0..<m])[n := A ! n XOR A ! row] =
       map (\<lambda>r. if r < Suc n \<and> r \<noteq> row \<and> bit (A ! r) col then A ! r XOR A ! row else A ! r) [0..<m]"
      unfolding map_upt_update [OF n] using True by (intro map_cong refl) (auto simp: less_Suc_eq)
    have e3: "(map ?g [0..<m])[n := y ! n XOR y ! row] =
       map (\<lambda>r. if r < Suc n \<and> r \<noteq> row \<and> bit (A ! r) col then y ! r XOR y ! row else y ! r) [0..<m]"
      unfolding map_upt_update [OF n] using True by (intro map_cong refl) (auto simp: less_Suc_eq)
    show ?thesis unfolding st e1 by (rule arg_cong2 [where f = Pair, OF e2 e3])
  next
    case False
    have e1: "elim_row col row n (map ?f [0..<m], map ?g [0..<m]) = (map ?f [0..<m], map ?g [0..<m])"
      using False by (simp only: elim_row_def prod.case An Ar bit_at_iff) simp
    have e2: "map ?f [0..<m] =
       map (\<lambda>r. if r < Suc n \<and> r \<noteq> row \<and> bit (A ! r) col then A ! r XOR A ! row else A ! r) [0..<m]"
      using False by (intro map_cong refl) (auto simp: less_Suc_eq)
    have e3: "map ?g [0..<m] =
       map (\<lambda>r. if r < Suc n \<and> r \<noteq> row \<and> bit (A ! r) col then y ! r XOR y ! row else y ! r) [0..<m]"
      using False by (intro map_cong refl) (auto simp: less_Suc_eq)
    show ?thesis unfolding st e1 by (rule arg_cong2 [where f = Pair, OF e2 e3])
  qed
qed

lemma eliminate_eq:
  assumes "length A = m" "length y = m" "row < m"
  shows "eliminate col row m (A, y) =
     (map (\<lambda>r. if r \<noteq> row \<and> bit (A ! r) col then A ! r XOR A ! row else A ! r) [0..<m],
      map (\<lambda>r. if r \<noteq> row \<and> bit (A ! r) col then y ! r XOR y ! row else y ! r) [0..<m])"
  unfolding eliminate_def using elim_fold [OF assms, of m col] by (simp cong: map_cong)

lemma dotp_cong: "(\<And>j. j < k \<Longrightarrow> x j = x' j) \<Longrightarrow> dotp k a x = dotp k a x'"
  by (induction k) auto

lemma sat_swap:
  assumes "length A = m" "length y = m" "row < m" "p < m"
  shows "sat k ((A[row := A ! p])[p := A ! row]) ((y[row := y ! p])[p := y ! row]) x = sat k A y x"
proof -
  define sw where "sw r = (if r = p then row else if r = row then p else r)" for r
  let ?A = "(A[row := A ! p])[p := A ! row]"
  let ?y = "(y[row := y ! p])[p := y ! row]"
  have sw_lt: "sw r < m" if "r < m" for r using that assms by (simp add: sw_def)
  have sw_sw: "sw (sw r) = r" for r by (simp add: sw_def)
  have nA: "?A ! r = A ! sw r" if "r < m" for r
    using that assms by (simp add: sw_def nth_list_update)
  have ny: "?y ! r = y ! sw r" if "r < m" for r
    using that assms by (simp add: sw_def nth_list_update)
  show ?thesis
  proof
    assume h: "sat k ?A ?y x"
    show "sat k A y x"
      unfolding sat_def
    proof (intro allI impI)
      fix r assume "r < length A"
      then have r: "r < m" using assms by simp
      have "dotp k (?A ! sw r) x = odd (?y ! sw r)"
        using h sw_lt [OF r] assms by (simp add: sat_def)
      then show "dotp k (A ! r) x = odd (y ! r)"
        using nA [OF sw_lt [OF r]] ny [OF sw_lt [OF r]] by (simp add: sw_sw)
    qed
  next
    assume h: "sat k A y x"
    show "sat k ?A ?y x"
      unfolding sat_def
    proof (intro allI impI)
      fix r assume "r < length ?A"
      then have r: "r < m" using assms by simp
      have "dotp k (A ! sw r) x = odd (y ! sw r)"
        using h sw_lt [OF r] assms by (simp add: sat_def)
      then show "dotp k (?A ! r) x = odd (?y ! r)"
        using nA [OF r] ny [OF r] by simp
    qed
  qed
qed

lemma sat_elim:
  assumes "length A = m" "length y = m" "row < m"
  shows "sat k (map (\<lambda>r. if r \<noteq> row \<and> bit (A ! r) c then A ! r XOR A ! row else A ! r) [0..<m])
               (map (\<lambda>r. if r \<noteq> row \<and> bit (A ! r) c then y ! r XOR y ! row else y ! r) [0..<m]) x
         = sat k A y x"
proof -
  let ?A = "map (\<lambda>r. if r \<noteq> row \<and> bit (A ! r) c then A ! r XOR A ! row else A ! r) [0..<m]"
  let ?y = "map (\<lambda>r. if r \<noteq> row \<and> bit (A ! r) c then y ! r XOR y ! row else y ! r) [0..<m]"
  have odd_xor: "odd (a XOR b) = (odd a \<noteq> odd b)" for a b :: int
    using even_xor_iff [of a b] by auto
  show ?thesis
  proof
    assume h: "sat k ?A ?y x"
    have hr: "dotp k (?A ! r) x = odd (?y ! r)" if "r < m" for r
      using h that by (simp add: sat_def)
    have prow: "dotp k (A ! row) x = odd (y ! row)"
      using hr [OF assms(3)] assms(3) by simp
    show "sat k A y x"
      unfolding sat_def
    proof (intro allI impI)
      fix r assume "r < length A"
      then have r: "r < m" using assms by simp
      show "dotp k (A ! r) x = odd (y ! r)"
      proof (cases "r \<noteq> row \<and> bit (A ! r) c")
        case True
        then have "dotp k (A ! r XOR A ! row) x = odd (y ! r XOR y ! row)"
          using hr [OF r] r by simp
        then show ?thesis using prow by (auto simp add: dotp_xor odd_xor)
      next
        case False
        then show ?thesis using hr [OF r] r by auto
      qed
    qed
  next
    assume h: "sat k A y x"
    have hr: "dotp k (A ! r) x = odd (y ! r)" if "r < m" for r
      using h that assms by (simp add: sat_def)
    show "sat k ?A ?y x"
      unfolding sat_def
    proof (intro allI impI)
      fix r assume "r < length ?A"
      then have r: "r < m" by simp
      show "dotp k (?A ! r) x = odd (?y ! r)"
        using hr [OF r] hr [OF assms(3)] r by (auto simp add: dotp_xor odd_xor)
    qed
  qed
qed

lemma swapped_nth:
  "row < length A \<Longrightarrow> p < length A \<Longrightarrow> r < length A \<Longrightarrow>
   ((A[row := A ! p])[p := A ! row]) ! r = swapped A row p r"
  by (simp add: swapped_def nth_list_update)

lemma stepped_eliminate:
  assumes "length A = m" "length y = m" "row < m" "p < m"
  shows "stepped m c row p A y
           (fst (eliminate c row m ((A[row := A ! p])[p := A ! row], (y[row := y ! p])[p := y ! row])))
           (snd (eliminate c row m ((A[row := A ! p])[p := A ! row], (y[row := y ! p])[p := y ! row])))"
proof -
  let ?A = "(A[row := A ! p])[p := A ! row]"
  let ?y = "(y[row := y ! p])[p := y ! row]"
  have lA: "length ?A = m" and ly: "length ?y = m" using assms by simp_all
  have rowA: "?A ! row = A ! p" using assms by (simp add: nth_list_update)
  have rowy: "?y ! row = y ! p" using assms by (simp add: nth_list_update)
  have sA: "?A ! r = swapped A row p r" if "r < m" for r
    using swapped_nth [of row A p r] that assms by simp
  have sy: "?y ! r = swapped y row p r" if "r < m" for r
    using swapped_nth [of row y p r] that assms by simp
  show ?thesis
    unfolding eliminate_eq [OF lA ly assms(3)] stepped_def fst_conv snd_conv rowA rowy
    using sA sy by simp
qed

lemma sat_stepped:
  assumes "length A = m" "length y = m" "row < m" "p < m"
  shows "sat k (fst (eliminate c row m ((A[row := A ! p])[p := A ! row], (y[row := y ! p])[p := y ! row])))
               (snd (eliminate c row m ((A[row := A ! p])[p := A ! row], (y[row := y ! p])[p := y ! row]))) x
         = sat k A y x"
proof -
  let ?A = "(A[row := A ! p])[p := A ! row]"
  let ?y = "(y[row := y ! p])[p := y ! row]"
  have lA: "length ?A = m" and ly: "length ?y = m" using assms by simp_all
  show ?thesis
    unfolding eliminate_eq [OF lA ly assms(3)] fst_conv snd_conv
    using sat_elim [OF lA ly assms(3), of k c x] sat_swap [OF assms, of k x] by simp
qed

lemma stepped_wf_rows:
  assumes "wf_rows m k A y" "stepped m c row p A y A2 y2" "row < m" "p < m"
  shows "wf_rows m k A2 y2"
proof -
  have bA: "bit (A ! r) j \<Longrightarrow> j < k" if "r < m" for r j
    using assms(1) that by (simp add: wf_rows_def)
  have bS: "bit (swapped A row p r) j \<Longrightarrow> j < k" if "r < m" for r j
    using bA [of r j] bA [of row j] bA [of p j] that assms(3,4) by (auto simp: swapped_def split: if_splits)
  have yA: "y ! r = 0 \<or> y ! r = 1" if "r < m" for r
    using assms(1) that by (simp add: wf_rows_def)
  have yS: "swapped y row p r = 0 \<or> swapped y row p r = 1" if "r < m" for r
    using yA [of r] yA [of row] yA [of p] that assms(3,4) by (auto simp: swapped_def)
  have "bit (A2 ! r) j \<longrightarrow> j < k" if "r < m" for r j
    using assms(2) that bS [OF that, of j] bA [OF assms(4), of j]
    by (auto simp: stepped_def bit_xor_iff)
  moreover have "y2 ! r = 0 \<or> y2 ! r = 1" if "r < m" for r
    using assms(2) that yS [OF that] yA [OF assms(4)]
    by (auto simp: stepped_def)
  ultimately show ?thesis using assms(2) by (simp add: wf_rows_def stepped_def)
qed

lemma stepped_old_pivot:
  assumes "pivot_at m A j r0" "r0 < row" "row \<le> p" "p < m" "stepped m c row p A y A2 y2"
  shows "pivot_at m A2 j r0"
proof -
  have r0: "r0 < m" "bit (A ! r0) j" and others: "\<And>r'. r' < m \<Longrightarrow> r' \<noteq> r0 \<Longrightarrow> \<not> bit (A ! r') j"
    using assms(1) by (auto simp: pivot_at_def)
  have np: "\<not> bit (A ! p) j" using others [of p] assms by simp
  have nrow: "\<not> bit (A ! row) j" using others [of row] assms by simp
  have s0: "swapped A row p r0 = A ! r0" using assms by (simp add: swapped_def)
  have sr: "\<not> bit (swapped A row p r') j" if "r' < m" "r' \<noteq> r0" for r'
    using others [OF that] np nrow by (simp add: swapped_def)
  have A2: "A2 ! r = (if r \<noteq> row \<and> bit (swapped A row p r) c
                        then swapped A row p r XOR A ! p else swapped A row p r)" if "r < m" for r
    using assms(5) that by (simp add: stepped_def)
  have "bit (A2 ! r0) j"
    using A2 [OF r0(1)] r0(2) np s0 by (simp add: bit_xor_iff)
  moreover have "\<not> bit (A2 ! r') j" if "r' < m" "r' \<noteq> r0" for r'
    using A2 [OF that(1)] sr [OF that] np by (simp add: bit_xor_iff)
  ultimately show ?thesis using r0(1) by (simp add: pivot_at_def)
qed

lemma stepped_new_pivot:
  assumes "bit (A ! p) c" "row \<le> p" "p < m" "stepped m c row p A y A2 y2"
  shows "pivot_at m A2 c row"
proof -
  have row: "row < m" using assms by simp
  have A2: "A2 ! r = (if r \<noteq> row \<and> bit (swapped A row p r) c
                        then swapped A row p r XOR A ! p else swapped A row p r)" if "r < m" for r
    using assms(4) that by (simp add: stepped_def)
  have "A2 ! row = A ! p" using A2 [OF row] by (simp add: swapped_def)
  then have "bit (A2 ! row) c" using assms(1) by simp
  moreover have "\<not> bit (A2 ! r') c" if "r' < m" "r' \<noteq> row" for r'
    using A2 [OF that(1)] that(2) assms(1) by (simp add: bit_xor_iff)
  ultimately show ?thesis using row by (simp add: pivot_at_def)
qed

lemma stepped_low_clear:
  assumes "low_clear m c A row" "row \<le> p" "p < m" "stepped m c row p A y A2 y2"
    and "pivot_at m A2 c row"
  shows "low_clear m (Suc c) A2 (Suc row)"
  unfolding low_clear_def
proof (intro allI impI)
  fix r j assume r: "r < m" "Suc row \<le> r" and j: "j < Suc c"
  have row: "row < m" using assms by simp
  have cl: "\<not> bit (A ! r') j'" if "r' < m" "row \<le> r'" "j' < c" for r' j'
    using assms(1) that by (simp add: low_clear_def)
  have A2: "A2 ! r = (if r \<noteq> row \<and> bit (swapped A row p r) c
                        then swapped A row p r XOR A ! p else swapped A row p r)"
    using assms(4) r by (simp add: stepped_def)
  show "\<not> bit (A2 ! r) j"
  proof (cases "j = c")
    case True
    then show ?thesis using assms(5) r by (simp add: pivot_at_def)
  next
    case False
    then have jc: "j < c" using j by simp
    have "\<not> bit (A ! p) j" using cl [OF assms(3) assms(2) jc] .
    moreover have "\<not> bit (swapped A row p r) j"
      using cl [OF r(1) _ jc] cl [OF row _ jc] cl [OF assms(3) assms(2) jc] r(2)
      by (simp add: swapped_def)
    ultimately show ?thesis using A2 by (simp add: bit_xor_iff)
  qed
qed

lemma find_pivot_Some:
  assumes "find_pivot A c row m = Some p"
  shows "row \<le> p \<and> p < m \<and> bit (A ! p) c"
proof -
  from assms obtain i where i: "i < length [row..<m]" "bit_at (A ! ([row..<m] ! i)) c \<noteq> 0" "p = [row..<m] ! i"
    unfolding find_pivot_def find_Some_iff by blast
  then have "p = row + i" "i < m - row" by simp_all
  then show ?thesis using i(2,3) by (simp add: bit_at_iff)
qed

lemma find_pivot_None:
  assumes "find_pivot A c row m = None" "row \<le> r" "r < m"
  shows "\<not> bit (A ! r) c"
proof -
  have "r \<in> set [row..<m]" using assms by simp
  then show ?thesis using assms(1) unfolding find_pivot_def find_None_iff bit_at_iff by blast
qed

lemma wf_piv_mono:
  assumes "wf_piv m k c A piv row" "c \<le> c'"
  shows "wf_piv m k c' A piv row"
proof -
  have 1: "\<forall>j<k. piv ! j = - 1 \<or> (\<exists>r<row. piv ! j = int r \<and> j < c' \<and> pivot_at m A j r)"
    using assms by (fastforce simp: wf_piv_def)
  have 2: "\<forall>j<k. c' \<le> j \<longrightarrow> piv ! j = - 1"
    using assms by (simp add: wf_piv_def)
  show ?thesis using assms(1) 1 2 unfolding wf_piv_def by blast
qed

lemma low_clear_skip:
  assumes "low_clear m c A row" "\<And>r. row \<le> r \<Longrightarrow> r < m \<Longrightarrow> \<not> bit (A ! r) c"
  shows "low_clear m (Suc c) A row"
  using assms by (auto simp: low_clear_def less_Suc_eq)

lemma wf_piv_step:
  assumes wf: "wf_piv m k c A piv row" and c: "c < k"
    and new: "pivot_at m A2 c row"
    and old: "\<And>j r0. pivot_at m A j r0 \<Longrightarrow> r0 < row \<Longrightarrow> pivot_at m A2 j r0"
  shows "wf_piv m k (Suc c) A2 (piv[c := int row]) (Suc row)"
proof -
  let ?piv = "piv[c := int row]"
  have len: "length piv = k" using wf by (simp add: wf_piv_def)
  have P: "piv ! j = - 1 \<or> (\<exists>r<row. piv ! j = int r \<and> j < c \<and> pivot_at m A j r)" if "j < k" for j
    using wf that by (simp add: wf_piv_def)
  have N: "piv ! j = - 1" if "j < k" "c \<le> j" for j
    using wf that by (simp add: wf_piv_def)
  have E: "\<exists>j<k. piv ! j = int r" if "r < row" for r
    using wf that by (simp add: wf_piv_def)
  have I: "j = j'" if "j < k" "j' < k" "piv ! j = piv ! j'" "piv ! j \<noteq> - 1" for j j'
    using wf that unfolding wf_piv_def by blast
  have nc: "?piv ! c = int row" using len c by simp
  have nj: "?piv ! j = piv ! j" if "j \<noteq> c" for j using that by simp
  have 1: "?piv ! j = - 1 \<or> (\<exists>r<Suc row. ?piv ! j = int r \<and> j < Suc c \<and> pivot_at m A2 j r)"
    if "j < k" for j
  proof (cases "j = c")
    case True
    then show ?thesis using nc new by auto
  next
    case False
    from P [OF that] show ?thesis
    proof
      assume "piv ! j = - 1"
      then show ?thesis using nj [OF False] by simp
    next
      assume "\<exists>r<row. piv ! j = int r \<and> j < c \<and> pivot_at m A j r"
      then obtain r where r: "r < row" "piv ! j = int r" "j < c" "pivot_at m A j r" by blast
      have "pivot_at m A2 j r" using old [OF r(4) r(1)] .
      then have "r < Suc row \<and> ?piv ! j = int r \<and> j < Suc c \<and> pivot_at m A2 j r"
        using r nj [OF False] by simp
      then show ?thesis by blast
    qed
  qed
  have 2: "?piv ! j = - 1" if "j < k" "Suc c \<le> j" for j
    using N [of j] that by simp
  have 3: "\<exists>j<k. ?piv ! j = int r" if "r < Suc row" for r
  proof (cases "r = row")
    case True
    then show ?thesis using nc c by blast
  next
    case False
    then have "r < row" using that by simp
    from E [OF this] obtain j where j: "j < k" "piv ! j = int r" by blast
    have "j \<noteq> c" using N [OF c] j(2) by auto
    then show ?thesis using j by auto
  qed
  have lt: "piv ! j \<noteq> int row" if "j < k" for j
    using P [OF that] by auto
  have 4: "j = j'" if "j < k" "j' < k" "?piv ! j = ?piv ! j'" "?piv ! j \<noteq> - 1" for j j'
  proof (cases "j = c")
    case jc: True
    show ?thesis
    proof (cases "j' = c")
      case True
      then show ?thesis using jc by simp
    next
      case False
      then show ?thesis using that(3) jc nc nj [OF False] lt [OF that(2)] by simp
    qed
  next
    case jc: False
    show ?thesis
    proof (cases "j' = c")
      case True
      then show ?thesis using that(3) jc nc nj [OF jc] lt [OF that(1)] by simp
    next
      case False
      then show ?thesis using that nj [OF jc] nj [OF False] I [of j j'] by simp
    qed
  qed
  show ?thesis unfolding wf_piv_def using len 1 2 3 4 by auto
qed

lemma ginv_skip:
  assumes "ginv m k A0 y0 c (A, y, piv, row)" "find_pivot A c row m = None"
  shows "ginv m k A0 y0 (Suc c) (A, y, piv, row)"
proof -
  have "low_clear m (Suc c) A row"
    by (rule low_clear_skip) (use assms find_pivot_None in \<open>auto simp: ginv_def\<close>)
  moreover have "wf_piv m k (Suc c) A piv row"
    by (rule wf_piv_mono [of m k c]) (use assms in \<open>auto simp: ginv_def\<close>)
  ultimately show ?thesis using assms(1) by (simp add: ginv_def)
qed

lemma ginv_done:
  assumes "ginv m k A0 y0 c (A, y, piv, m)" "c \<le> c'"
  shows "ginv m k A0 y0 c' (A, y, piv, m)"
proof -
  have "low_clear m c' A m" by (simp add: low_clear_def)
  moreover have "wf_piv m k c' A piv m"
    by (rule wf_piv_mono [of m k c]) (use assms in \<open>auto simp: ginv_def\<close>)
  ultimately show ?thesis using assms(1) by (simp add: ginv_def)
qed

lemma ginv_pivot:
  assumes inv: "ginv m k A0 y0 c (A, y, piv, row)" and fp: "find_pivot A c row m = Some p" and c: "c < k"
  defines "Ay2 \<equiv> eliminate c row m ((A[row := A ! p])[p := A ! row], (y[row := y ! p])[p := y ! row])"
  shows "ginv m k A0 y0 (Suc c) (fst Ay2, snd Ay2, piv[c := int row], Suc row)"
proof -
  have p: "row \<le> p" "p < m" "bit (A ! p) c" using find_pivot_Some [OF fp] by simp_all
  then have row: "row < m" by simp
  have wfr: "wf_rows m k A y" and sat0: "\<And>x. sat k A y x = sat k A0 y0 x"
    and wfp: "wf_piv m k c A piv row" and lc: "low_clear m c A row"
    using inv by (simp_all add: ginv_def)
  have lA: "length A = m" and ly: "length y = m" using wfr by (simp_all add: wf_rows_def)
  have st: "stepped m c row p A y (fst Ay2) (snd Ay2)"
    unfolding Ay2_def by (rule stepped_eliminate [OF lA ly row p(2)])
  have s1: "wf_rows m k (fst Ay2) (snd Ay2)"
    by (rule stepped_wf_rows [OF wfr st row p(2)])
  have s2: "sat k (fst Ay2) (snd Ay2) x = sat k A0 y0 x" for x
    unfolding Ay2_def sat_stepped [OF lA ly row p(2)] by (rule sat0)
  have new: "pivot_at m (fst Ay2) c row"
    by (rule stepped_new_pivot [OF p(3) p(1) p(2) st])
  have s3: "wf_piv m k (Suc c) (fst Ay2) (piv[c := int row]) (Suc row)"
    by (rule wf_piv_step [OF wfp c new]) (rule stepped_old_pivot [OF _ _ p(1) p(2) st])
  have s4: "low_clear m (Suc c) (fst Ay2) (Suc row)"
    by (rule stepped_low_clear [OF lc p(1) p(2) st new])
  show ?thesis using s1 s2 s3 s4 row by (simp add: ginv_def)
qed

lemma gauss_cols_ginv:
  "ginv m k A0 y0 c s \<Longrightarrow> c \<le> k \<Longrightarrow> ginv m k A0 y0 k (gauss_cols m [c..<k] s)"
proof (induction "k - c" arbitrary: c s)
  case 0
  then show ?case by simp
next
  case (Suc n)
  obtain A y piv row where s: "s = (A, y, piv, row)" by (cases s) auto
  have c: "c < k" and n: "n = k - Suc c" using Suc.hyps(2) by simp_all
  have upt: "[c..<k] = c # [Suc c..<k]" using c by (simp add: upt_conv_Cons)
  show ?case
  proof (cases "find_pivot A c row m")
    case None
    have "ginv m k A0 y0 (Suc c) (A, y, piv, row)"
      using ginv_skip Suc.prems(1) None unfolding s by blast
    from Suc.hyps(1) [OF n this] c show ?thesis
      unfolding s upt using None by simp
  next
    case (Some p)
    let ?Ay2 = "eliminate c row m ((A[row := A ! p])[p := A ! row], (y[row := y ! p])[p := y ! row])"
    have g: "ginv m k A0 y0 (Suc c) (fst ?Ay2, snd ?Ay2, piv[c := int row], Suc row)"
      using ginv_pivot [OF _ Some c] Suc.prems(1) unfolding s by blast
    show ?thesis
    proof (cases "Suc row = m")
      case True
      have "ginv m k A0 y0 k (fst ?Ay2, snd ?Ay2, piv[c := int row], m)"
        using ginv_done [of m k A0 y0 "Suc c" _ _ _ k] g c unfolding True by simp
      then show ?thesis unfolding s upt using Some True by (simp add: Let_def)
    next
      case False
      from Suc.hyps(1) [OF n g] c show ?thesis
        unfolding s upt using Some False by (simp add: Let_def)
    qed
  qed
qed

lemma and1_odd: "((a::int) AND 1 \<noteq> 0) = odd a"
  by (simp add: and_one_eq mod_2_eq_odd)

lemma and1_cases: "(a::int) AND 1 = 0 \<or> a AND 1 = 1"
  by (simp add: and_one_eq mod_2_eq_odd)

lemma fold_update_upt:
  "n \<le> length xs \<Longrightarrow>
   fold (\<lambda>i xs. if P i then xs[i := f i (xs ! i)] else xs) [0..<n] xs =
   map (\<lambda>i. if i < n \<and> P i then f i (xs ! i) else xs ! i) [0..<length xs]"
proof (induction n)
  case 0
  then show ?case by (simp add: map_nth)
next
  case (Suc n)
  let ?zs = "map (\<lambda>i. if i < n \<and> P i then f i (xs ! i) else xs ! i) [0..<length xs]"
  have n: "n < length xs" using Suc.prems by simp
  have st: "fold (\<lambda>i xs. if P i then xs[i := f i (xs ! i)] else xs) [0..<Suc n] xs =
            (if P n then ?zs[n := f n (?zs ! n)] else ?zs)"
    using Suc by simp
  have zn: "?zs ! n = xs ! n" using n by simp
  show ?case
  proof (cases "P n")
    case True
    show ?thesis unfolding st zn
      by (rule nth_equalityI) (use n True in \<open>auto simp: nth_list_update less_Suc_eq\<close>)
  next
    case False
    show ?thesis unfolding st zn
      by (rule nth_equalityI) (use n False in \<open>auto simp: less_Suc_eq\<close>)
  qed
qed

lemma back_subst_eq:
  "back_subst k piv y = map (\<lambda>j. if piv ! j \<noteq> - 1 then y ! nat (piv ! j) AND 1 else 0) [0..<k]"
  unfolding back_subst_def Let_def
  using fold_update_upt [of k "replicate k 0" "\<lambda>j. piv ! j \<noteq> - 1" "\<lambda>j _. y ! nat (piv ! j) AND 1"]
  by (simp cong: map_cong)

lemma accumulate_eq:
  "length ids = k \<Longrightarrow>
   accumulate k b xb ids = map (\<lambda>i. if xb ! i \<noteq> 0 then ids ! i OR push_bit b 1 else ids ! i) [0..<k]"
  unfolding accumulate_def
  using fold_update_upt [of k ids "\<lambda>i. xb ! i \<noteq> 0" "\<lambda>i v. v OR push_bit b 1"]
  by (simp cong: map_cong)

lemma inconsistent_iff: "inconsistent m A y \<longleftrightarrow> (\<exists>r<m. A ! r = 0 \<and> y ! r = 1)"
  by (auto simp: inconsistent_def list_ex_iff)

lemma ginv_init:
  assumes "wf_rows m k A0 y0"
  shows "ginv m k A0 y0 0 (A0, y0, replicate k (- 1), 0)"
  using assms by (simp add: ginv_def wf_piv_def low_clear_def)

lemma ginv_complete:
  assumes "ginv m k A0 y0 c (A, y, piv, row)" "sat k A0 y0 x"
  shows "\<not> inconsistent m A y"
proof
  assume "inconsistent m A y"
  then obtain r where r: "r < m" "A ! r = 0" "y ! r = 1" unfolding inconsistent_iff by blast
  have "sat k A y x" and "length A = m" using assms by (simp_all add: ginv_def wf_rows_def)
  then have "dotp k (A ! r) x = odd (y ! r)" using r(1) by (simp add: sat_def)
  then show False using r(2,3) by (simp add: dotp_zero)
qed

lemma ginv_sound:
  assumes inv: "ginv m k A0 y0 k (A, y, piv, row)" and cons: "\<not> inconsistent m A y"
  shows "sat k A0 y0 (\<lambda>j. back_subst k piv y ! j \<noteq> 0)"
proof -
  let ?x = "\<lambda>j. back_subst k piv y ! j \<noteq> 0"
  have wfr: "wf_rows m k A y" and sat0: "\<And>x. sat k A y x = sat k A0 y0 x"
    and wfp: "wf_piv m k k A piv row" and lc: "low_clear m k A row" and rowm: "row \<le> m"
    using inv by (simp_all add: ginv_def)
  have lA: "length A = m" and y01: "\<And>r. r < m \<Longrightarrow> y ! r = 0 \<or> y ! r = 1"
    and hi: "\<And>r j. r < m \<Longrightarrow> bit (A ! r) j \<Longrightarrow> j < k"
    using wfr by (auto simp: wf_rows_def)
  have P: "piv ! j = - 1 \<or> (\<exists>r<row. piv ! j = int r \<and> pivot_at m A j r)" if "j < k" for j
    using wfp that unfolding wf_piv_def by blast
  have E: "\<exists>j<k. piv ! j = int r" if "r < row" for r
    using wfp that by (simp add: wf_piv_def)
  have I: "j = j'" if "j < k" "j' < k" "piv ! j = piv ! j'" "piv ! j \<noteq> - 1" for j j'
    using wfp that unfolding wf_piv_def by blast
  have x: "?x j \<longleftrightarrow> piv ! j \<noteq> - 1 \<and> odd (y ! nat (piv ! j))" if "j < k" for j
    using that by (simp add: back_subst_eq and1_odd)
  have "dotp k (A ! r) ?x = odd (y ! r)" if r: "r < m" for r
  proof (cases "r < row")
    case True
    from E [OF True] obtain j0 where j0: "j0 < k" "piv ! j0 = int r" by blast
    have pv: "pivot_at m A j0 r" using P [OF j0(1)] j0(2) by auto
    have other: "\<not> (bit (A ! r) j \<and> ?x j)" if jk: "j < k" and jn: "j \<noteq> j0" for j
    proof (cases "piv ! j = - 1")
      case True
      then show ?thesis using x [OF jk] by simp
    next
      case False
      then obtain r' where r': "r' < row" "piv ! j = int r'" "pivot_at m A j r'"
        using P [OF jk] by blast
      have "r' \<noteq> r" using I [OF jk j0(1)] jn r'(2) j0(2) False by auto
      then show ?thesis using r'(3) r by (auto simp: pivot_at_def)
    qed
    have "dotp k (A ! r) ?x = (bit (A ! r) j0 \<and> ?x j0)"
      by (rule dotp_single [OF j0(1)]) (use other in blast)
    also have "\<dots> = odd (y ! r)"
      using pv x [OF j0(1)] j0(2) by (simp add: pivot_at_def)
    finally show ?thesis .
  next
    case False
    have "\<not> bit (A ! r) j" for j
      using hi [OF r, of j] lc r False by (auto simp: low_clear_def)
    then have A0: "A ! r = 0" by (simp add: bit_eq_iff)
    have "y ! r = 0" using y01 [OF r] cons r A0 unfolding inconsistent_iff by blast
    then show ?thesis using A0 by (simp add: dotp_zero)
  qed
  then have "sat k A y ?x" using lA by (simp add: sat_def)
  then show ?thesis using sat0 by simp
qed

lemma bit_build_mask_aux:
  "bit (fold (\<lambda>i mask. if 0 \<le> i \<and> i < int k then mask OR push_bit (nat i) 1 else mask) xs (acc::int)) j
     \<longleftrightarrow> bit acc j \<or> (j < k \<and> int j \<in> set xs)"
proof (induction xs arbitrary: acc)
  case Nil
  then show ?case by simp
next
  case (Cons a xs)
  have "bit (push_bit (nat a) (1::int)) j \<longleftrightarrow> nat a = j"
    by (auto simp: bit_push_bit_iff bit_1_iff bit_exp_iff)
  then show ?case using Cons [of "if 0 \<le> a \<and> a < int k then acc OR push_bit (nat a) 1 else acc"]
    by (auto simp: bit_or_iff)
qed

lemma bit_build_mask: "bit (build_mask k xs) j \<longleftrightarrow> j < k \<and> int j \<in> set xs"
  unfolding build_mask_def bit_build_mask_aux by simp

lemma wf_rows_masks: "wf_rows (length eqs) k (masks_of k eqs) (plane_rhs eqs b)"
  using and1_cases by (auto simp: wf_rows_def masks_of_def plane_rhs_def bit_build_mask)

lemma solve_plane_unfold:
  "solve_plane masks eqs k b =
     (case gauss_cols (length eqs) [0..<k] (masks, plane_rhs eqs b, replicate k (- 1), 0) of
        (A, y', piv, row) \<Rightarrow>
           if inconsistent (length eqs) A y' then None else Some (back_subst k piv y'))"
  by (simp add: solve_plane_def plane_rhs_def Let_def)

lemma solve_plane_None_iff:
  "solve_plane (masks_of k eqs) eqs k b = None \<longleftrightarrow> (\<forall>x. \<not> sat k (masks_of k eqs) (plane_rhs eqs b) x)"
proof -
  let ?m = "length eqs" and ?A0 = "masks_of k eqs" and ?y0 = "plane_rhs eqs b"
  obtain A y piv row where g: "gauss_cols ?m [0..<k] (?A0, ?y0, replicate k (- 1), 0) = (A, y, piv, row)"
    by (cases "gauss_cols ?m [0..<k] (?A0, ?y0, replicate k (- 1), 0)") auto
  have inv: "ginv ?m k ?A0 ?y0 k (A, y, piv, row)"
    using gauss_cols_ginv [OF ginv_init [OF wf_rows_masks], of k eqs b] g by simp
  show ?thesis
  proof
    assume "solve_plane ?A0 eqs k b = None"
    then have "inconsistent ?m A y" unfolding solve_plane_unfold g by (simp split: if_splits)
    then show "\<forall>x. \<not> sat k ?A0 ?y0 x" using ginv_complete [OF inv] by blast
  next
    assume h: "\<forall>x. \<not> sat k ?A0 ?y0 x"
    have "inconsistent ?m A y" using ginv_sound [OF inv] h by blast
    then show "solve_plane ?A0 eqs k b = None" unfolding solve_plane_unfold g by simp
  qed
qed

lemma solve_plane_Some:
  assumes "solve_plane (masks_of k eqs) eqs k b = Some xb"
  shows "length xb = k \<and> (\<forall>j<k. xb ! j = 0 \<or> xb ! j = 1)
         \<and> sat k (masks_of k eqs) (plane_rhs eqs b) (\<lambda>j. xb ! j \<noteq> 0)"
proof -
  let ?m = "length eqs" and ?A0 = "masks_of k eqs" and ?y0 = "plane_rhs eqs b"
  obtain A y piv row where g: "gauss_cols ?m [0..<k] (?A0, ?y0, replicate k (- 1), 0) = (A, y, piv, row)"
    by (cases "gauss_cols ?m [0..<k] (?A0, ?y0, replicate k (- 1), 0)") auto
  have inv: "ginv ?m k ?A0 ?y0 k (A, y, piv, row)"
    using gauss_cols_ginv [OF ginv_init [OF wf_rows_masks], of k eqs b] g by simp
  have c: "\<not> inconsistent ?m A y" and xb: "xb = back_subst k piv y"
    using assms unfolding solve_plane_unfold g by (simp_all split: if_splits)
  have "length xb = k" unfolding xb back_subst_eq by simp
  moreover have "xb ! j = 0 \<or> xb ! j = 1" if "j < k" for j
    unfolding xb back_subst_eq using that and1_cases by simp
  moreover have "sat k ?A0 ?y0 (\<lambda>j. xb ! j \<noteq> 0)"
    unfolding xb by (rule ginv_sound [OF inv c])
  ultimately show ?thesis by blast
qed

lemma sat_cong: "(\<And>j. j < k \<Longrightarrow> x j = x' j) \<Longrightarrow> sat k A y x = sat k A y x'"
  unfolding sat_def using dotp_cong [of k x x'] by auto

lemma planes_ok_step:
  assumes ok: "planes_ok k eqs b0 ids" and sp: "solve_plane (masks_of k eqs) eqs k b0 = Some xb"
  shows "planes_ok k eqs (Suc b0) (accumulate k b0 xb ids)"
proof -
  let ?ids = "accumulate k b0 xb ids"
  have len: "length ids = k" and hi: "\<And>i b. i < k \<Longrightarrow> bit (ids ! i) b \<Longrightarrow> b < b0"
    and old: "\<And>b. b < b0 \<Longrightarrow> sat k (masks_of k eqs) (plane_rhs eqs b) (\<lambda>j. bit (ids ! j) b)"
    using ok unfolding planes_ok_def by blast+
  have xs: "sat k (masks_of k eqs) (plane_rhs eqs b0) (\<lambda>j. xb ! j \<noteq> 0)"
    using solve_plane_Some [OF sp] by simp
  have nth: "?ids ! i = (if xb ! i \<noteq> 0 then ids ! i OR push_bit b0 1 else ids ! i)" if "i < k" for i
    using that by (simp add: accumulate_eq [OF len])
  have bits: "bit (?ids ! i) b \<longleftrightarrow> bit (ids ! i) b \<or> (b = b0 \<and> xb ! i \<noteq> 0)" if "i < k" for i b
    unfolding nth [OF that] by (auto simp: bit_or_iff bit_push_bit_iff bit_1_iff bit_exp_iff)
  have 1: "length ?ids = k" by (simp add: accumulate_eq [OF len])
  have 2: "b < Suc b0" if "i < k" "bit (?ids ! i) b" for i b
    using that hi [of i b] bits [of i b] by auto
  have 3: "sat k (masks_of k eqs) (plane_rhs eqs b) (\<lambda>j. bit (?ids ! j) b)" if "b < Suc b0" for b
  proof (cases "b = b0")
    case True
    have "sat k (masks_of k eqs) (plane_rhs eqs b0) (\<lambda>j. bit (?ids ! j) b0)
          = sat k (masks_of k eqs) (plane_rhs eqs b0) (\<lambda>j. xb ! j \<noteq> 0)"
      by (rule sat_cong) (use bits hi in auto)
    then show ?thesis using xs True by simp
  next
    case False
    then have b: "b < b0" using that by simp
    have "sat k (masks_of k eqs) (plane_rhs eqs b) (\<lambda>j. bit (?ids ! j) b)
          = sat k (masks_of k eqs) (plane_rhs eqs b) (\<lambda>j. bit (ids ! j) b)"
      by (rule sat_cong) (use bits False in auto)
    then show ?thesis using old [OF b] by simp
  qed
  show ?thesis unfolding planes_ok_def using 1 2 3 by blast
qed

lemma solve_planes_Inr:
  "planes_ok k eqs b0 ids \<Longrightarrow> b0 \<le> n \<Longrightarrow>
   solve_planes (masks_of k eqs) eqs k [b0..<n] ids = Inr res \<Longrightarrow> planes_ok k eqs n res"
proof (induction "n - b0" arbitrary: b0 ids)
  case 0
  then show ?case by simp
next
  case (Suc d)
  have b0: "b0 < n" and d: "d = n - Suc b0" using Suc.hyps(2) by simp_all
  have upt: "[b0..<n] = b0 # [Suc b0..<n]" using b0 by (simp add: upt_conv_Cons)
  show ?case
  proof (cases "solve_plane (masks_of k eqs) eqs k b0")
    case None
    then show ?thesis using Suc.prems(3) unfolding upt by simp
  next
    case (Some xb)
    have r: "solve_planes (masks_of k eqs) eqs k [Suc b0..<n] (accumulate k b0 xb ids) = Inr res"
      using Suc.prems(3) Some unfolding upt by simp
    show ?thesis
      using Suc.hyps(1) [OF d planes_ok_step [OF Suc.prems(1) Some] _ r] b0 by simp
  qed
qed

lemma solve_planes_total:
  "(\<And>b. b0 \<le> b \<Longrightarrow> b < n \<Longrightarrow> solve_plane masks eqs k b \<noteq> None) \<Longrightarrow>
   \<exists>res. solve_planes masks eqs k [b0..<n] ids = Inr res"
proof (induction "n - b0" arbitrary: b0 ids)
  case 0
  then show ?case by simp
next
  case (Suc d)
  have b0: "b0 < n" and d: "d = n - Suc b0" using Suc.hyps(2) by simp_all
  have upt: "[b0..<n] = b0 # [Suc b0..<n]" using b0 by (simp add: upt_conv_Cons)
  obtain xb where xb: "solve_plane masks eqs k b0 = Some xb"
    using Suc.prems [of b0] b0 by auto
  have "\<exists>res. solve_planes masks eqs k [Suc b0..<n] (accumulate k b0 xb ids) = Inr res"
    by (rule Suc.hyps(1) [OF d]) (use Suc.prems in auto)
  then show ?case unfolding upt using xb by simp
qed

lemma solve_planes_first_None:
  "b0 \<le> b \<Longrightarrow> b < n \<Longrightarrow> solve_plane masks eqs k b = None \<Longrightarrow>
   (\<And>b'. b0 \<le> b' \<Longrightarrow> b' < b \<Longrightarrow> solve_plane masks eqs k b' \<noteq> None) \<Longrightarrow>
   solve_planes masks eqs k [b0..<n] ids = Inl (Inconsistent b)"
proof (induction "b - b0" arbitrary: b0 ids)
  case 0
  then have "b0 = b" by simp
  then have upt: "[b0..<n] = b # [Suc b..<n]" using 0 by (simp add: upt_conv_Cons)
  show ?case unfolding upt using 0 by simp
next
  case (Suc d)
  have b0: "b0 < b" and d: "d = b - Suc b0" using Suc.hyps(2) by simp_all
  have upt: "[b0..<n] = b0 # [Suc b0..<n]" using b0 Suc.prems by (simp add: upt_conv_Cons)
  obtain xb where xb: "solve_plane masks eqs k b0 = Some xb"
    using Suc.prems(4) [of b0] b0 by auto
  have "solve_planes masks eqs k [Suc b0..<n] (accumulate k b0 xb ids) = Inl (Inconsistent b)"
    by (rule Suc.hyps(1) [OF d]) (use Suc.prems b0 in auto)
  then show ?case unfolding upt using xb by simp
qed

lemma planes_ok_init: "planes_ok k eqs 0 (replicate k 0)"
  by (simp add: planes_ok_def)

lemma solve_switch_ids_unfold:
  "eqs \<noteq> [] \<Longrightarrow> solve_switch_ids eqs k n =
     solve_planes (masks_of k eqs) eqs k [0..<n] (replicate k 0)"
  by (simp add: solve_switch_ids_def masks_of_def)

lemma bit_xor_hops:
  "n \<le> k \<Longrightarrow> bit (xor_hops ids S n) b = dotp n (build_mask k S) (\<lambda>j. bit (ids ! j) b)"
  by (induction n) (auto simp: bit_xor_iff bit_build_mask)

lemma odd_plane_rhs: "r < length eqs \<Longrightarrow> odd (plane_rhs eqs b ! r) = bit (final_pint (eqs ! r)) b"
  using and1_odd [of "drop_bit b (final_pint (eqs ! r))"]
  by (simp add: plane_rhs_def bit_iff_odd_drop_bit and_one_eq)

lemma planes_ok_equation:
  assumes ok: "planes_ok k eqs n ids" and r: "r < length eqs"
  shows "xor_hops ids (xor_set (eqs ! r)) k = final_pint (eqs ! r) mod 2 ^ n"
proof (rule bit_eqI)
  fix b
  have hi: "\<And>i b. i < k \<Longrightarrow> bit (ids ! i) b \<Longrightarrow> b < n"
    and pl: "\<And>b. b < n \<Longrightarrow> sat k (masks_of k eqs) (plane_rhs eqs b) (\<lambda>j. bit (ids ! j) b)"
    using ok unfolding planes_ok_def by blast+
  have m: "masks_of k eqs ! r = build_mask k (xor_set (eqs ! r))"
    using r by (simp add: masks_of_def)
  have lhs: "bit (xor_hops ids (xor_set (eqs ! r)) k) b = dotp k (masks_of k eqs ! r) (\<lambda>j. bit (ids ! j) b)"
    unfolding m by (rule bit_xor_hops) simp
  show "bit (xor_hops ids (xor_set (eqs ! r)) k) b = bit (final_pint (eqs ! r) mod 2 ^ n) b"
  proof (cases "b < n")
    case True
    have "dotp k (masks_of k eqs ! r) (\<lambda>j. bit (ids ! j) b) = odd (plane_rhs eqs b ! r)"
      using pl [OF True] r by (simp add: sat_def masks_of_def)
    then show ?thesis
      unfolding lhs using True odd_plane_rhs [OF r, of b]
      by (simp flip: take_bit_eq_mod add: bit_take_bit_iff)
  next
    case False
    have "dotp k (masks_of k eqs ! r) (\<lambda>j. bit (ids ! j) b) = False"
      by (rule dotp_none) (use hi False in auto)
    then show ?thesis unfolding lhs using False
      by (simp flip: take_bit_eq_mod add: bit_take_bit_iff)
  qed
qed

text \<open>
  C7. Soundness of the solver: whenever \<open>solve_switch_ids\<close> returns a vector, the vector
  has one identifier per hop and satisfies every input equation on the low \<open>id_bits\<close>
  bit-planes: the XOR of the returned identifiers over the hop indices of the equation's
  \<open>xor_set\<close> that lie in \<open>[0, num_hops)\<close> equals \<open>final_pint\<close> modulo \<open>2 ^ id_bits\<close>.
  Indices outside \<open>[0, num_hops)\<close> take no part (\<open>bit_build_mask\<close>).
\<close>

theorem solve_switch_ids_sound:
  assumes "solve_switch_ids eqs num_hops id_bits = Inr ids" and "e \<in> set eqs"
  shows "length ids = num_hops \<and>
         xor_hops ids (xor_set e) num_hops = final_pint e mod 2 ^ id_bits"
proof -
  have ne: "eqs \<noteq> []" using assms(2) by auto
  have "solve_planes (masks_of num_hops eqs) eqs num_hops [0..<id_bits] (replicate num_hops 0) = Inr ids"
    using assms(1) unfolding solve_switch_ids_unfold [OF ne] .
  from solve_planes_Inr [OF planes_ok_init _ this]
  have ok: "planes_ok num_hops eqs id_bits ids" by simp
  obtain r where r: "r < length eqs" "eqs ! r = e"
    using assms(2) by (auto simp: in_set_conv_nth)
  show ?thesis using planes_ok_equation [OF ok r(1)] ok r(2) by (simp add: planes_ok_def)
qed

section \<open>Results on \<open>solve_switch_ids\<close>\<close>

lemma solve_plane_single:
  assumes "bit a 0 \<or> bit a (Suc 0)"
  shows "solve_plane [a] [e] 2 b =
           Some (if bit a 0 then [drop_bit b (final_pint e) AND 1, 0]
                 else [0, drop_bit b (final_pint e) AND 1])"
proof -
  have a0: "a \<noteq> 0" using assms by auto
  have u2: "[0..<2] = [0, Suc 0]" by (simp add: upt_rec numeral_2_eq_2)
  have u1: "[0..<Suc 0] = [0]" by simp
  have and_idem: "(x AND 1) AND 1 = x AND 1" for x :: int by (simp add: and.assoc)
  show ?thesis
    using assms a0
    by (auto simp add: solve_plane_def u2 u1 find_pivot_def eliminate_def elim_row_def inconsistent_def
        back_subst_def bit_at_iff Let_def and_idem numeral_2_eq_2)
qed

lemma take_bit_Suc_or:
  "take_bit (Suc b) (p::int) = (if drop_bit b p AND 1 \<noteq> 0 then take_bit b p OR push_bit b 1 else take_bit b p)"
proof (rule bit_eqI)
  fix n
  have o: "(drop_bit b p AND 1 \<noteq> 0) = bit p b" by (simp add: and1_odd bit_iff_odd_drop_bit)
  show "bit (take_bit (Suc b) p) n = bit (if drop_bit b p AND 1 \<noteq> 0 then take_bit b p OR push_bit b 1 else take_bit b p) n"
    unfolding o
    by (auto simp: bit_take_bit_iff bit_or_iff bit_push_bit_iff bit_1_iff bit_exp_iff less_Suc_eq)
qed

lemma solve_planes_single:
  assumes "bit a 0 \<or> bit a (Suc 0)"
  shows "b0 \<le> n \<Longrightarrow>
    solve_planes [a] [e] 2 [b0..<n]
       (if bit a 0 then [take_bit b0 (final_pint e), 0] else [0, take_bit b0 (final_pint e)])
    = Inr (if bit a 0 then [take_bit n (final_pint e), 0] else [0, take_bit n (final_pint e)])"
proof (induction "n - b0" arbitrary: b0)
  case 0
  then show ?case by simp
next
  case (Suc d)
  have b0: "b0 < n" and d: "d = n - Suc b0" using Suc.hyps(2) by simp_all
  have upt: "[b0..<n] = b0 # [Suc b0..<n]" using b0 by (simp add: upt_conv_Cons)
  have u2: "[0..<2] = [0, Suc 0]" by (simp add: upt_rec numeral_2_eq_2)
  have acc: "accumulate 2 b0
               (if bit a 0 then [drop_bit b0 (final_pint e) AND 1, 0] else [0, drop_bit b0 (final_pint e) AND 1])
               (if bit a 0 then [take_bit b0 (final_pint e), 0] else [0, take_bit b0 (final_pint e)])
             = (if bit a 0 then [take_bit (Suc b0) (final_pint e), 0] else [0, take_bit (Suc b0) (final_pint e)])"
    by (simp add: accumulate_def u2 take_bit_Suc_or [of b0 "final_pint e"] del: take_bit_Suc)
  show ?case
    unfolding upt solve_planes.simps solve_plane_single [OF assms] option.case acc
    using Suc.hyps(1) [OF d] b0 by simp
qed

text \<open>
  C6. With \<open>num_hops = 2\<close> and a single equation whose \<open>xor_set\<close> holds hop 0 or hop 1,
  the solve succeeds for every \<open>final_pint\<close>: the pivot hop (hop 0 when it is in the set,
  else hop 1) receives \<open>final_pint\<close> modulo \<open>2 ^ id_bits\<close>, and every bit of the other,
  free hop is zero.
\<close>

theorem solve_one_equation_two_hops:
  assumes "0 \<in> set (xor_set e) \<or> 1 \<in> set (xor_set e)"
  shows "solve_switch_ids [e] 2 id_bits =
           Inr (if 0 \<in> set (xor_set e) then [final_pint e mod 2 ^ id_bits, 0]
                else [0, final_pint e mod 2 ^ id_bits])"
proof -
  let ?a = "build_mask 2 (xor_set e)"
  have b0: "bit ?a 0 \<longleftrightarrow> 0 \<in> set (xor_set e)" and b1: "bit ?a (Suc 0) \<longleftrightarrow> 1 \<in> set (xor_set e)"
    by (simp_all add: bit_build_mask)
  have a: "bit ?a 0 \<or> bit ?a (Suc 0)" using assms b0 b1 by simp
  have "solve_switch_ids [e] 2 id_bits =
        solve_planes [?a] [e] 2 [0..<id_bits] (if bit ?a 0 then [take_bit 0 (final_pint e), 0] else [0, take_bit 0 (final_pint e)])"
    by (simp add: solve_switch_ids_def numeral_2_eq_2)
  also have "\<dots> = Inr (if bit ?a 0 then [take_bit id_bits (final_pint e), 0] else [0, take_bit id_bits (final_pint e)])"
    by (rule solve_planes_single [OF a]) simp
  finally show ?thesis unfolding b0 by (simp add: take_bit_eq_mod)
qed

lemma two_rows_sat:
  "sat k [a, a'] [y, y'] x \<longleftrightarrow> dotp k a x = odd y \<and> dotp k a' x = odd y'"
  by (auto simp: sat_def less_Suc_eq numeral_2_eq_2)

lemma plane_two_equal_masks:
  assumes m: "build_mask k (xor_set e1) = build_mask k (xor_set e2)"
  shows "solve_plane (masks_of k [e1, e2]) [e1, e2] k b = None \<longleftrightarrow>
           bit (final_pint e1) b \<noteq> bit (final_pint e2) b \<or>
           (build_mask k (xor_set e1) = 0 \<and> bit (final_pint e1) b)"
proof -
  let ?a = "build_mask k (xor_set e1)"
  have o: "odd (drop_bit b p AND 1) = bit p b" for p :: int
    using and1_odd [of "drop_bit b p"] by (simp add: bit_iff_odd_drop_bit and_one_eq)
  have s: "sat k (masks_of k [e1, e2]) (plane_rhs [e1, e2] b) x \<longleftrightarrow>
           dotp k ?a x = bit (final_pint e1) b \<and> dotp k ?a x = bit (final_pint e2) b" for x
    unfolding masks_of_def plane_rhs_def list.map two_rows_sat o m [symmetric] ..
  show ?thesis
  proof (cases "bit (final_pint e1) b = bit (final_pint e2) b")
    case False
    then show ?thesis unfolding solve_plane_None_iff s by auto
  next
    case eq: True
    show ?thesis
    proof (cases "?a = 0")
      case True
      then show ?thesis unfolding solve_plane_None_iff s using eq by (simp add: dotp_zero)
    next
      case False
      then obtain j where j: "bit ?a j" by (auto simp: bit_eq_iff)
      then have jk: "j < k" by (simp add: bit_build_mask)
      have "dotp k ?a (\<lambda>i. i = j \<and> bit (final_pint e1) b) = (bit ?a j \<and> (j = j \<and> bit (final_pint e1) b))"
        by (rule dotp_single [OF jk]) simp
      then have "dotp k ?a (\<lambda>i. i = j \<and> bit (final_pint e1) b) = bit (final_pint e1) b"
        using j by simp
      then have "\<exists>x. dotp k ?a x = bit (final_pint e1) b" by blast
      then show ?thesis unfolding solve_plane_None_iff s using eq False by simp
    qed
  qed
qed

text \<open>
  C5, as amended. Two equations whose \<open>xor_set\<close>s give the same row mask and whose
  \<open>final_pint\<close>s differ first at bit \<open>b0 < id_bits\<close>: the solve fails and reports a
  bit-plane not above \<open>b0\<close>; when the common mask is not zero the reported plane is \<open>b0\<close>
  itself. With a zero mask every plane where a \<open>final_pint\<close> has a 1 is already
  inconsistent, so an earlier plane can be reported.
\<close>

theorem solve_two_equal_masks:
  assumes m: "build_mask k (xor_set e1) = build_mask k (xor_set e2)"
    and b0: "b0 < id_bits"
    and diff: "bit (final_pint e1) b0 \<noteq> bit (final_pint e2) b0"
    and least: "\<forall>b<b0. bit (final_pint e1) b = bit (final_pint e2) b"
  shows "\<exists>b\<le>b0. solve_switch_ids [e1, e2] k id_bits = Inl (Inconsistent b) \<and>
           (build_mask k (xor_set e1) \<noteq> 0 \<longrightarrow> b = b0)"
proof -
  let ?P = "\<lambda>b. solve_plane (masks_of k [e1, e2]) [e1, e2] k b = None"
  define b where "b = (LEAST b. ?P b)"
  have P0: "?P b0" unfolding plane_two_equal_masks [OF m] using diff by simp
  have Pb: "?P b" unfolding b_def using P0 by (rule LeastI)
  have le: "b \<le> b0" unfolding b_def using P0 by (rule Least_le)
  have before: "\<not> ?P b'" if "b' < b" for b'
    using that unfolding b_def by (rule not_less_Least)
  have "solve_planes (masks_of k [e1, e2]) [e1, e2] k [0..<id_bits] (replicate k 0) = Inl (Inconsistent b)"
    by (rule solve_planes_first_None [OF _ _ Pb]) (use le b0 before in auto)
  then have r: "solve_switch_ids [e1, e2] k id_bits = Inl (Inconsistent b)"
    by (simp add: solve_switch_ids_unfold)
  have "b = b0" if nz: "build_mask k (xor_set e1) \<noteq> 0"
  proof (rule ccontr)
    assume "b \<noteq> b0"
    then have "b < b0" using le by simp
    then have "bit (final_pint e1) b = bit (final_pint e2) b" using least by simp
    then have "\<not> ?P b" unfolding plane_two_equal_masks [OF m] using nz by simp
    then show False using Pb by simp
  qed
  then show ?thesis using le r by blast
qed

theorem solve_two_equal_masks_witness:
  "build_mask 1 [0] = build_mask 1 [0] \<and> (1::nat) < 16 \<and> bit (1::int) 1 \<noteq> bit (3::int) 1 \<and>
   bit (1::int) 0 = bit (3::int) 0 \<and> build_mask 1 [0] \<noteq> 0 \<and>
   solve_switch_ids [\<lparr>pktid = 0, final_pint = 1, xor_set = [0]\<rparr>,
                     \<lparr>pktid = 1, final_pint = 3, xor_set = [0]\<rparr>] 1 16 = Inl (Inconsistent 1)"
proof -
  let ?e1 = "\<lparr>pktid = 0, final_pint = 1, xor_set = [0]\<rparr>"
  let ?e2 = "\<lparr>pktid = 1, final_pint = 3, xor_set = [0]\<rparr>"
  have h1: "build_mask 1 (xor_set ?e1) = build_mask 1 (xor_set ?e2)" by simp
  have h2: "(1::nat) < 16" by simp
  have h3: "bit (final_pint ?e1) 1 \<noteq> bit (final_pint ?e2) 1" by simp
  have h4: "\<forall>b<1. bit (final_pint ?e1) b = bit (final_pint ?e2) b" by simp
  have nz: "build_mask 1 [0] \<noteq> 0" by (simp add: build_mask_def)
  from solve_two_equal_masks [OF h1 h2 h3 h4] nz h3 h4
  show ?thesis by auto
qed

text \<open>
  The claim as stated (the reported plane is the smallest differing bit) fails for zero
  masks: \<open>final_pint\<close> 1 and 3 differ first at bit 1, and plane 0 is reported.
\<close>

theorem solve_two_zero_masks_counterexample:
  "build_mask 1 [] = build_mask 1 [] \<and> bit (1::int) 0 = bit (3::int) 0 \<and> bit (1::int) 1 \<noteq> bit (3::int) 1 \<and>
   solve_switch_ids [\<lparr>pktid = 0, final_pint = 1, xor_set = []\<rparr>,
                     \<lparr>pktid = 1, final_pint = 3, xor_set = []\<rparr>] 1 16 = Inl (Inconsistent 0) \<and>
   solve_switch_ids [\<lparr>pktid = 0, final_pint = 1, xor_set = []\<rparr>,
                     \<lparr>pktid = 1, final_pint = 3, xor_set = []\<rparr>] 1 16 \<noteq> Inl (Inconsistent 1)"
proof -
  have "solve_switch_ids [\<lparr>pktid = 0, final_pint = 1, xor_set = []\<rparr>,
                     \<lparr>pktid = 1, final_pint = 3, xor_set = []\<rparr>] 1 16 = Inl (Inconsistent 0)"
    by code_simp
  then show ?thesis by simp
qed

theorem solve_one_equation_two_hops_witness:
  "(0 \<in> set [0, 1] \<or> (1::int) \<in> set [0, 1]) \<and>
   solve_switch_ids [\<lparr>pktid = 7, final_pint = 0x444C, xor_set = [0, 1]\<rparr>] 2 16 = Inr [0x444C, 0]"
  using solve_one_equation_two_hops [of "\<lparr>pktid = 7, final_pint = 0x444C, xor_set = [0, 1]\<rparr>" 16]
  by simp

theorem solve_switch_ids_sound_witness:
  "solve_switch_ids [\<lparr>pktid = 0, final_pint = 0x444C, xor_set = [0, 1]\<rparr>,
                     \<lparr>pktid = 1, final_pint = 0x5678, xor_set = [1]\<rparr>] 2 16 = Inr [0x1234, 0x5678] \<and>
   length [0x1234, 0x5678 :: int] = 2 \<and>
   xor_hops [0x1234, 0x5678] [0, 1] 2 = 0x444C mod 2 ^ 16"
proof -
  let ?e1 = "\<lparr>pktid = 0, final_pint = 0x444C, xor_set = [0, 1]\<rparr>"
  let ?e2 = "\<lparr>pktid = 1, final_pint = 0x5678, xor_set = [1]\<rparr>"
  have h: "solve_switch_ids [?e1, ?e2] 2 16 = Inr [0x1234, 0x5678]" by code_simp
  have m: "?e1 \<in> set [?e1, ?e2]" by simp
  from solve_switch_ids_sound [OF h m] h show ?thesis by simp
qed

section \<open>Round trip through the generation-mode simulator\<close>

lemma dotp_bits_cong: "(\<And>j. j < k \<Longrightarrow> bit a j = bit a' j) \<Longrightarrow> dotp k a x = dotp k a' x"
  by (induction k) auto

lemma dotp_unit: "h < k \<Longrightarrow> dotp k (push_bit h 1) x = x h"
proof -
  assume h: "h < k"
  have b: "bit (push_bit h (1::int)) j \<longleftrightarrow> j = h" for j
    by (auto simp: bit_push_bit_iff bit_1_iff bit_exp_iff)
  have "dotp k (push_bit h 1) x = (bit (push_bit h (1::int)) h \<and> x h)"
    by (rule dotp_single [OF h]) (simp add: bit_exp_iff)
  then show ?thesis by (simp add: bit_exp_iff)
qed

lemma dotp_mask_single: "h < k \<Longrightarrow> dotp k (build_mask k [int h]) x = x h"
proof -
  assume h: "h < k"
  have "dotp k (build_mask k [int h]) x = dotp k (push_bit h 1) x"
    by (rule dotp_bits_cong) (auto simp: bit_build_mask bit_push_bit_iff bit_1_iff bit_exp_iff)
  then show ?thesis using dotp_unit [OF h] by simp
qed

lemma dotp_mask_insert:
  assumes "h < k" "int h \<notin> set S"
  shows "dotp k (build_mask k (int h # S)) x = (dotp k (build_mask k S) x \<noteq> x h)"
proof -
  have "dotp k (build_mask k (int h # S)) x = dotp k (build_mask k S XOR push_bit h 1) x"
    by (rule dotp_bits_cong)
       (use assms in \<open>auto simp: bit_build_mask bit_xor_iff bit_push_bit_iff bit_1_iff bit_exp_iff\<close>)
  then show ?thesis using dotp_unit [OF assms(1)] by (simp add: dotp_xor)
qed

lemma sim_inv_mono: "sim_inv k ids h s \<Longrightarrow> h \<le> h' \<Longrightarrow> sim_inv k ids h' s"
  by (cases s) (fastforce simp: sim_inv_def)

lemma sim_inv_add:
  assumes "sim_inv k ids h (d, S, pint)" "h < k"
  shows "sim_inv k ids (Suc h) (d', List.insert (int h) S, pint XOR ids ! h)"
proof -
  have lt: "\<forall>i\<in>set S. i < int h" and p: "\<And>b. bit pint b = dotp k (build_mask k S) (\<lambda>j. bit (ids ! j) b)"
    using assms(1) by (simp_all add: sim_inv_def)
  have notin: "int h \<notin> set S" using lt by auto
  then have ins: "List.insert (int h) S = int h # S" by (simp add: List.insert_def)
  have "\<forall>i\<in>set (int h # S). i < int (Suc h)" using lt by auto
  moreover have "bit (pint XOR ids ! h) b = dotp k (build_mask k (int h # S)) (\<lambda>j. bit (ids ! j) b)" for b
    unfolding dotp_mask_insert [OF assms(2) notin] bit_xor_iff p by auto
  ultimately show ?thesis unfolding ins sim_inv_def by simp
qed

lemma sim_inv_replace:
  assumes "h < k"
  shows "sim_inv k ids (Suc h) (d', [int h], ids ! h)"
  using dotp_mask_single [OF assms] by (simp add: sim_inv_def)

lemma simulate_hops_inv:
  "simulate_hops apa md ids pkt [h..<k] s = Inr s' \<Longrightarrow> sim_inv k ids h s \<Longrightarrow> h \<le> k \<Longrightarrow>
   sim_inv k ids k s'"
proof (induction "k - h" arbitrary: h s)
  case 0
  then show ?case by simp
next
  case (Suc n)
  obtain d S pint where s: "s = (d, S, pint)" by (cases s) auto
  have h: "h < k" and n: "n = k - Suc h" using Suc.hyps(2) by simp_all
  have upt: "[h..<k] = h # [Suc h..<k]" using h by (simp add: upt_conv_Cons)
  have inv: "sim_inv k ids h (d, S, pint)" using Suc.prems(2) s by simp
  have IH: "sim_inv k ids k s'"
    if "simulate_hops apa md ids pkt [Suc h..<k] t = Inr s'" "sim_inv k ids (Suc h) t" for t
    using Suc.hyps(1) [OF n that] h by simp
  let ?idx = "h * md + d"
  let ?hash = "recipe_hash_v4_murmur pkt (int h) AND 0xFFFFFFFF"
  from Suc.prems(1) have run: "simulate_hops apa md ids pkt (h # [Suc h..<k]) (d, S, pint) = Inr s'"
    unfolding upt s .
  show ?case
  proof (cases "?idx \<ge> length (add_thresh apa)")
    case True
    then have "s' = (d, S, pint)" using run by simp
    then show ?thesis using sim_inv_mono [OF inv, of k] h by simp
  next
    case brk: False
    show ?thesis
    proof (cases "?hash < add_thresh apa ! ?idx")
      case True
      then have "simulate_hops apa md ids pkt [Suc h..<k]
                   (d + 1, List.insert (int h) S, pint XOR ids ! h) = Inr s'"
        using run brk by (simp add: Let_def split: if_splits)
      then show ?thesis by (rule IH) (rule sim_inv_add [OF inv h])
    next
      case noadd: False
      show ?thesis
      proof (cases "?hash > replace_thresh apa ! ?idx")
        case True
        then have "simulate_hops apa md ids pkt [Suc h..<k] (1, [int h], ids ! h) = Inr s'"
          using run brk noadd by (simp add: Let_def split: if_splits)
        then show ?thesis by (rule IH) (rule sim_inv_replace [OF h])
      next
        case False
        then have "simulate_hops apa md ids pkt [Suc h..<k] (d, S, pint) = Inr s'"
          using run brk noadd by (simp add: Let_def split: if_splits)
        then show ?thesis by (rule IH) (rule sim_inv_mono [OF inv], simp)
      qed
    qed
  qed
qed

lemma simulate_packet_eq:
  assumes "simulate_packet apa k md ids pkt = Inr e"
  shows "bit (final_pint e) b = dotp k (build_mask k (xor_set e)) (\<lambda>j. bit (ids ! j) b)"
proof -
  obtain d S pint where r: "simulate_hops apa md ids pkt [0..<k] (0, [], 0) = Inr (d, S, pint)"
    and e: "e = \<lparr>pktid = pkt, final_pint = pint, xor_set = S\<rparr>"
    using assms by (auto simp: simulate_packet_def split: sum.splits)
  have "sim_inv k ids 0 (0, [], 0)"
    by (simp add: sim_inv_def build_mask_def dotp_zero)
  from simulate_hops_inv [OF r this] show ?thesis
    unfolding e by (simp add: sim_inv_def)
qed

lemma simulate_packets_eqs:
  "simulate_packets apa k md ids ps = Inr eqs \<Longrightarrow>
   length eqs = length ps \<and>
   (\<forall>e\<in>set eqs. \<forall>b. bit (final_pint e) b = dotp k (build_mask k (xor_set e)) (\<lambda>j. bit (ids ! j) b))"
proof (induction ps arbitrary: eqs)
  case Nil
  then show ?case by auto
next
  case (Cons p ps)
  from Cons.prems obtain e es where e: "simulate_packet apa k md ids (int p) = Inr e"
    and es: "simulate_packets apa k md ids ps = Inr es" and eqs: "eqs = e # es"
    by (auto split: sum.splits)
  show ?case using Cons.IH [OF es] simulate_packet_eq [OF e] unfolding eqs by auto
qed

lemma dotp_diff: "dotp k a (\<lambda>j. x j \<noteq> y j) = (dotp k a x \<noteq> dotp k a y)"
  by (induction k) auto

lemma int_bits_bounded:
  assumes "0 \<le> (v::int)" "v < 2 ^ n" "bit v b"
  shows "b < n"
proof (rule ccontr)
  assume "\<not> b < n"
  then have "n \<le> b" by simp
  have "take_bit n v = v" using assms(1,2) by (simp add: take_bit_int_eq_self)
  then have "bit v b = bit (take_bit n v) b" by simp
  then show False using assms(3) \<open>n \<le> b\<close> by (simp add: bit_take_bit_iff)
qed

text \<open>
  C1, as amended. Encode/decode round trip: let at least one packet be generated by the
  simulator in generation mode, from an identifier vector with one \<open>id_bits\<close>-wide
  identifier per hop, and let the row masks of the resulting equations have rank
  \<open>num_hops\<close> over GF(2). Then \<open>solve_switch_ids\<close> on those equations returns exactly
  the identifier vector. (Rank \<open>num_hops\<close> already forces at least \<open>num_hops\<close> packets.)
\<close>

theorem roundtrip_generated_packets:
  assumes sim: "simulate_xor_degree_distribution num_packets apa num_hops max_deg switch_id = Inr eqs"
    and n: "1 \<le> num_packets"
    and len: "length switch_id = num_hops"
    and wide: "\<forall>v\<in>set switch_id. 0 \<le> v \<and> v < 2 ^ id_bits"
    and rank: "full_rank num_hops (map (\<lambda>e. build_mask num_hops (xor_set e)) eqs)"
  shows "solve_switch_ids eqs num_hops id_bits = Inr switch_id"
proof -
  let ?k = num_hops
  let ?M = "masks_of ?k eqs"
  let ?t = "\<lambda>b j. bit (switch_id ! j) b"
  from simulate_packets_eqs [OF sim [unfolded simulate_xor_degree_distribution_def]]
  have leneq: "length eqs = num_packets"
    and gen: "\<And>e b. e \<in> set eqs \<Longrightarrow>
                bit (final_pint e) b = dotp ?k (build_mask ?k (xor_set e)) (?t b)"
    by auto
  have ne: "eqs \<noteq> []" using leneq n by auto
  have truth: "sat ?k ?M (plane_rhs eqs b) (?t b)" for b
    unfolding sat_def
  proof (intro allI impI)
    fix r assume "r < length ?M"
    then have r: "r < length eqs" by (simp add: masks_of_def)
    then have "eqs ! r \<in> set eqs" by simp
    from gen [OF this, of b] show "dotp ?k (?M ! r) (?t b) = odd (plane_rhs eqs b ! r)"
      using r odd_plane_rhs [OF r, of b] by (simp add: masks_of_def)
  qed
  have "solve_plane ?M eqs ?k b \<noteq> None" for b
    unfolding solve_plane_None_iff using truth [of b] by blast
  then obtain res where res: "solve_planes ?M eqs ?k [0..<id_bits] (replicate ?k 0) = Inr res"
    using solve_planes_total [of 0 id_bits ?M eqs ?k "replicate ?k 0"] by blast
  from solve_planes_Inr [OF planes_ok_init _ res]
  have ok: "planes_ok ?k eqs id_bits res" by simp
  have lres: "length res = ?k" and hi: "\<And>i b. i < ?k \<Longrightarrow> bit (res ! i) b \<Longrightarrow> b < id_bits"
    and pl: "\<And>b. b < id_bits \<Longrightarrow> sat ?k ?M (plane_rhs eqs b) (\<lambda>j. bit (res ! j) b)"
    using ok unfolding planes_ok_def by blast+
  have same: "bit (res ! i) b = bit (switch_id ! i) b" if i: "i < ?k" for i b
  proof (cases "b < id_bits")
    case True
    let ?d = "\<lambda>j. bit (res ! j) b \<noteq> bit (switch_id ! j) b"
    have "\<not> dotp ?k a ?d" if a: "a \<in> set (map (\<lambda>e. build_mask ?k (xor_set e)) eqs)" for a
    proof -
      from a obtain r where r: "r < length eqs" "a = ?M ! r"
        by (auto simp: in_set_conv_nth masks_of_def)
      have "dotp ?k a (\<lambda>j. bit (res ! j) b) = odd (plane_rhs eqs b ! r)"
        using pl [OF True] r by (simp add: sat_def masks_of_def)
      moreover have "dotp ?k a (?t b) = odd (plane_rhs eqs b ! r)"
        using truth [of b] r by (simp add: sat_def masks_of_def)
      ultimately show ?thesis unfolding dotp_diff by simp
    qed
    then have "\<forall>c<?k. \<not> ?d c" using rank unfolding full_rank_def by blast
    then show ?thesis using i by simp
  next
    case False
    have "\<not> bit (res ! i) b" using hi [OF i, of b] False by blast
    moreover have "\<not> bit (switch_id ! i) b"
      using int_bits_bounded [of "switch_id ! i" id_bits b] wide i len False by auto
    ultimately show ?thesis by simp
  qed
  have "res = switch_id"
    by (rule nth_equalityI) (use lres len same in \<open>auto simp: bit_eq_iff\<close>)
  then show ?thesis using res ne by (simp add: solve_switch_ids_unfold)
qed

theorem roundtrip_generated_packets_witness:
  "simulate_xor_degree_distribution 2
      \<lparr>m_max_hops = 2, m_max_degree = 2,
        add_thresh = [0xFFFFFFFF, 0, 0, 0x3E000000],
        replace_thresh = [0xFFFFFFFF, 0xFFFFFFFF, 0xFFFFFFFF, 0x3E000000]\<rparr> 2 2 [0x1234, 0x5678]
     = Inr [\<lparr>pktid = 0, final_pint = 0x444C, xor_set = [1, 0]\<rparr>,
            \<lparr>pktid = 1, final_pint = 0x5678, xor_set = [1]\<rparr>] \<and>
   solve_switch_ids [\<lparr>pktid = 0, final_pint = 0x444C, xor_set = [1, 0]\<rparr>,
                     \<lparr>pktid = 1, final_pint = 0x5678, xor_set = [1]\<rparr>] 2 16 = Inr [0x1234, 0x5678]"
proof -
  let ?apa = "\<lparr>m_max_hops = 2, m_max_degree = 2,
        add_thresh = [0xFFFFFFFF, 0, 0, 0x3E000000],
        replace_thresh = [0xFFFFFFFF, 0xFFFFFFFF, 0xFFFFFFFF, 0x3E000000]\<rparr>"
  let ?eqs = "[\<lparr>pktid = 0, final_pint = 0x444C, xor_set = [1, 0]\<rparr>,
               \<lparr>pktid = 1, final_pint = 0x5678, xor_set = [1]\<rparr>]"
  have sim: "simulate_xor_degree_distribution 2 ?apa 2 2 [0x1234, 0x5678] = Inr ?eqs"
    by code_simp
  have n: "(1::nat) \<le> 2" by simp
  have len: "length [0x1234, 0x5678 :: int] = 2" by simp
  have wide: "\<forall>v\<in>set [0x1234, 0x5678 :: int]. 0 \<le> v \<and> v < 2 ^ 16" by simp
  have m: "map (\<lambda>e. build_mask 2 (xor_set e)) ?eqs = [3, 2]"
    by (simp add: build_mask_def)
  have rank: "full_rank 2 (map (\<lambda>e. build_mask 2 (xor_set e)) ?eqs)"
    unfolding m full_rank_def by (auto simp: numeral_2_eq_2 less_Suc_eq)
  from roundtrip_generated_packets [OF sim n len wide rank] sim show ?thesis by simp
qed

text \<open>
  The claim as stated admits \<open>num_hops = 0\<close> with no packet: the rank condition holds,
  and the solver returns \<open>None\<close> at its first test instead of the empty vector.
\<close>

theorem roundtrip_no_packets_counterexample:
  "simulate_xor_degree_distribution 0
      \<lparr>m_max_hops = 0, m_max_degree = 1, add_thresh = [], replace_thresh = []\<rparr> 0 1 [] = Inr [] \<and>
   full_rank 0 [] \<and>
   solve_switch_ids [] 0 16 = Inl NoEquations \<and>
   solve_switch_ids [] 0 16 \<noteq> Inr []"
  by (simp add: simulate_xor_degree_distribution_def full_rank_def solve_switch_ids_def)

section \<open>The degree counter of the path simulation\<close>

lemma reconstruct_hops_degree:
  "reconstruct_hops apa max_deg pkt hops (d, S) = Inr (d', S') \<Longrightarrow> 2 \<le> max_deg \<Longrightarrow>
   d < max_deg \<Longrightarrow> d' < max_deg"
proof (induction hops arbitrary: d S)
  case Nil
  then show ?case by simp
next
  case (Cons h hops)
  from Cons.prems(1) show ?case
    using Cons.IH [of "(d + 1) mod max_deg"] Cons.IH [of 1] Cons.IH [of d] Cons.prems(2,3)
    by (auto simp: Let_def split: if_splits sum.splits)
qed

text \<open>
  C4. The claim: in both simulations an ADD increments \<open>xor_degree\<close> modulo
  \<open>max_degree\<close>, so that \<open>xor_degree\<close> stays below \<open>max_degree\<close> and the index
  \<open>hop * max_degree + xor_degree\<close> stays in the hop's own cells. The decode-mode loop does
  reduce modulo \<open>max_degree\<close> (\<open>reconstruct_hops_degree\<close>); the generation-mode loop adds 1
  without reducing. With \<open>max_degree = 1\<close> and three configured hops, packet 0 has
  \<open>xor_degree = 1 = max_degree\<close> after the ADD at hop 0; hop 1 then reads index
  \<open>1 * 1 + 1 = 2\<close>, the cell of hop 2, whose threshold makes it ADD, where its own cell
  (index 1, add threshold 0) would make it SKIP. After hop 1 the degree is 2.
\<close>

theorem simulate_hops_degree_not_reduced:
  "simulate_hops
      \<lparr>m_max_hops = 3, m_max_degree = 1,
        add_thresh = [0xFFFFFFFF, 0, 0xFFFFFFFF],
        replace_thresh = [0xFFFFFFFF, 0xFFFFFFFF, 0xFFFFFFFF]\<rparr> 1 [1, 2, 4] 0 [0..<1] (0, [], 0)
     = Inr (1, [0], 1) \<and>
   simulate_hops
      \<lparr>m_max_hops = 3, m_max_degree = 1,
        add_thresh = [0xFFFFFFFF, 0, 0xFFFFFFFF],
        replace_thresh = [0xFFFFFFFF, 0xFFFFFFFF, 0xFFFFFFFF]\<rparr> 1 [1, 2, 4] 0 [0..<2] (0, [], 0)
     = Inr (2, [1, 0], 3)"
  by code_simp

section \<open>The checksum hash\<close>

lemma mask32_range: "0 \<le> (x::int) AND 0xFFFFFFFF \<and> x AND 0xFFFFFFFF < 2 ^ 32"
proof -
  have "x AND 0xFFFFFFFF \<le> 0xFFFFFFFF" by (rule AND_upper2) simp
  then show ?thesis by simp
qed

lemma struct_pack_ok:
  assumes "0 \<le> pkt \<and> pkt < 2 ^ 16 \<and> 0 \<le> hopid \<and> hopid < 2 ^ 8"
  shows "\<exists>data. struct_pack_IIBHB SRC_IP_U32 DST_IP_U32 IP_PROTO_RECIPE pkt hopid = Inr data"
  using assms
  by (simp add: struct_pack_IIBHB_def pack_field_def SRC_IP_U32_def DST_IP_U32_def
      IP_PROTO_RECIPE_def ipv4_to_u32_def)

lemma struct_pack_error:
  assumes "\<not> (0 \<le> pkt \<and> pkt < 2 ^ 16 \<and> 0 \<le> hopid \<and> hopid < 2 ^ 8)"
  shows "struct_pack_IIBHB SRC_IP_U32 DST_IP_U32 IP_PROTO_RECIPE pkt hopid = Inl StructError"
  using assms
  by (auto simp add: struct_pack_IIBHB_def pack_field_def SRC_IP_U32_def DST_IP_U32_def
      IP_PROTO_RECIPE_def ipv4_to_u32_def)

text \<open>
  C10. The checksum hash of decoding.py is defined exactly on \<open>packet_id\<close> in
  \<open>[0, 2^16)\<close> and \<open>hop_id\<close> in \<open>[0, 2^8)\<close>: there it returns a value in \<open>[0, 2^32)\<close>;
  for every other \<open>packet_id\<close> or \<open>hop_id\<close> packing raises \<open>struct.error\<close>.
\<close>

theorem recipe_hash_v4_domain:
  "(0 \<le> pkt \<and> pkt < 2 ^ 16 \<and> 0 \<le> hopid \<and> hopid < 2 ^ 8 \<longrightarrow>
      (\<exists>v. recipe_hash_v4 pkt hopid = Inr v \<and> 0 \<le> v \<and> v < 2 ^ 32)) \<and>
   (\<not> (0 \<le> pkt \<and> pkt < 2 ^ 16 \<and> 0 \<le> hopid \<and> hopid < 2 ^ 8) \<longrightarrow>
      recipe_hash_v4 pkt hopid = Inl StructError)"
proof (intro conjI impI)
  assume r: "0 \<le> pkt \<and> pkt < 2 ^ 16 \<and> 0 \<le> hopid \<and> hopid < 2 ^ 8"
  from struct_pack_ok [OF r] obtain data where
    "struct_pack_IIBHB SRC_IP_U32 DST_IP_U32 IP_PROTO_RECIPE pkt hopid = Inr data" by blast
  then have "recipe_hash_v4 pkt hopid = Inr (zlib_crc32 data AND 0xFFFFFFFF)"
    by (simp add: recipe_hash_v4_def Let_def)
  then show "\<exists>v. recipe_hash_v4 pkt hopid = Inr v \<and> 0 \<le> v \<and> v < 2 ^ 32"
    using mask32_range [of "zlib_crc32 data"] by simp
next
  assume "\<not> (0 \<le> pkt \<and> pkt < 2 ^ 16 \<and> 0 \<le> hopid \<and> hopid < 2 ^ 8)"
  from struct_pack_error [OF this] show "recipe_hash_v4 pkt hopid = Inl StructError"
    by (simp add: recipe_hash_v4_def Let_def)
qed

theorem recipe_hash_v4_domain_witness:
  "recipe_hash_v4 1 1 = Inr 348937501 \<and> (0::int) \<le> 348937501 \<and> (348937501::int) < 2 ^ 32 \<and>
   recipe_hash_v4 65536 1 = Inl StructError \<and> recipe_hash_v4 1 256 = Inl StructError"
proof -
  have v: "recipe_hash_v4 1 1 = Inr 348937501" by code_simp
  from recipe_hash_v4_domain [of 1 1] recipe_hash_v4_domain [of 65536 1] recipe_hash_v4_domain [of 1 256] v
  show ?thesis by simp
qed

section \<open>The APA loader: encoding and format errors\<close>

lemma and_mask32: "(n::int) AND 0xFFFFFFFF = n mod 2 ^ 32"
proof -
  have "(0xFFFFFFFF::int) = mask 32" by (simp add: mask_eq_exp_minus_1)
  then show ?thesis by (simp only: flip: take_bit_eq_mask) (simp add: take_bit_eq_mod)
qed

lemma fixed32_floor:
  assumes "0 \<le> p" "p < 1"
  shows "fixed32 (Finite p) = Inr (\<lfloor>p * 2 ^ 32\<rfloor> mod 2 ^ 32)"
proof -
  have "p * 2 ^ 32 < 1 * 2 ^ 32" using assms(2) by (intro mult_strict_right_mono) simp_all
  then have hi: "\<not> p * 2 ^ 32 > DBL_MAX" by (simp add: DBL_MAX_def)
  have "0 \<le> p * 2 ^ 32" using assms(1) by simp
  then have lo: "\<not> p * 2 ^ 32 < - DBL_MAX" and nn: "0 \<le> p * 2 ^ 32" by (simp_all add: DBL_MAX_def)
  have "scale32 (Finite p) = Finite (p * 2 ^ 32)" using hi lo by (simp add: scale32_def)
  then have "py_int (scale32 (Finite p)) = Inr \<lfloor>p * 2 ^ 32\<rfloor>" using nn by (simp add: py_int_def)
  then show ?thesis by (simp add: fixed32_def and_mask32)
qed

lemma load_degrees_ok:
  assumes "\<forall>f\<in>set parts. \<exists>p v. pf f = Some p \<and> fixed32 p = Inr v"
  shows "\<forall>d\<in>set ds. 2 * d + 1 < length parts \<Longrightarrow>
     \<exists>pa' pc'. load_degrees pf parts h md ds (pa, pc) = Inr (pa', pc') \<and>
        length pa' = length pa \<and> length pc' = length pc"
proof (induction ds arbitrary: pa pc)
  case Nil
  then show ?case by simp
next
  case (Cons d ds)
  have d: "2 * d + 1 < length parts" using Cons.prems by simp
  then have "parts ! (2 * d) \<in> set parts" "parts ! (2 * d + 1) \<in> set parts" by simp_all
  then obtain p1 v1 p2 v2 where
    1: "pf (parts ! (2 * d)) = Some p1" "fixed32 p1 = Inr v1" and
    2: "pf (parts ! (2 * d + 1)) = Some p2" "fixed32 p2 = Inr v2"
    using assms by blast
  have "\<exists>pa' pc'. load_degrees pf parts h md ds (pa[h * md + d := v1], pc[h * md + d := v2]) = Inr (pa', pc') \<and>
        length pa' = length (pa[h * md + d := v1]) \<and> length pc' = length (pc[h * md + d := v2])"
    by (rule Cons.IH) (use Cons.prems in simp)
  then show ?case using 1 2 by (simp add: Let_def)
qed

lemma load_line_ok:
  assumes "\<not> line_offending md l" "line_parses pf l"
  shows "\<exists>pa' pc'. load_degrees pf (apa_parts l) h md [0..<length (apa_parts l) div 2] (pa, pc) = Inr (pa', pc') \<and>
        length pa' = length pa \<and> length pc' = length pc"
proof (rule load_degrees_ok)
  show "\<forall>f\<in>set (apa_parts l). \<exists>p v. pf f = Some p \<and> fixed32 p = Inr v"
    using assms(2) by (simp add: line_parses_def)
  show "\<forall>d\<in>set [0..<length (apa_parts l) div 2]. 2 * d + 1 < length (apa_parts l)"
    by auto
qed

lemma load_lines_ok:
  "\<forall>(i, l)\<in>set ils. \<not> line_offending md l \<and> line_parses pf l \<Longrightarrow>
   \<exists>pa' pc'. load_lines pf md ils (pa, pc) = Inr (pa', pc') \<and>
        length pa' = length pa \<and> length pc' = length pc"
proof (induction ils arbitrary: pa pc)
  case Nil
  then show ?case by simp
next
  case (Cons il ils)
  obtain i l where il: "il = (i, l)" by (cases il) auto
  have ok: "\<not> line_offending md l" "line_parses pf l" using Cons.prems il by auto
  from load_line_ok [OF ok, of i pa pc] obtain pa1 pc1 where
    1: "load_degrees pf (apa_parts l) i md [0..<length (apa_parts l) div 2] (pa, pc) = Inr (pa1, pc1)"
       "length pa1 = length pa" "length pc1 = length pc" by blast
  have "\<exists>pa' pc'. load_lines pf md ils (pa1, pc1) = Inr (pa', pc') \<and>
        length pa' = length pa1 \<and> length pc' = length pc1"
    by (rule Cons.IH) (use Cons.prems in simp)
  then show ?case using 1 ok unfolding il by (simp add: Let_def line_offending_def)
qed

lemma load_lines_first_bad:
  "\<forall>(j, l')\<in>set pre. \<not> line_offending md l' \<and> line_parses pf l' \<Longrightarrow> line_offending md l \<Longrightarrow>
   load_lines pf md (pre @ (i, l) # post) (pa, pc) = Inl (line_error md i l)"
proof (induction pre arbitrary: pa pc)
  case Nil
  then show ?case by (auto simp: Let_def line_offending_def line_error_def)
next
  case (Cons jl pre)
  obtain j l' where jl: "jl = (j, l')" by (cases jl) auto
  have ok: "\<not> line_offending md l'" "line_parses pf l'" using Cons.prems jl by auto
  from load_line_ok [OF ok, of j pa pc] obtain pa1 pc1 where
    1: "load_degrees pf (apa_parts l') j md [0..<length (apa_parts l') div 2] (pa, pc) = Inr (pa1, pc1)"
    by blast
  have "load_lines pf md (pre @ (i, l) # post) (pa1, pc1) = Inl (line_error md i l)"
    by (rule Cons.IH) (use Cons.prems in simp_all)
  then show ?case using 1 ok unfolding jl by (simp add: Let_def line_offending_def)
qed

lemma enumerate_split:
  assumes "i < length ls"
  shows "List.enumerate 0 ls = List.enumerate 0 (take i ls) @ (i, ls ! i) # List.enumerate (Suc i) (drop (Suc i) ls)"
proof -
  have "ls = take i ls @ ls ! i # drop (Suc i) ls" using assms by (rule id_take_nth_drop)
  then have "List.enumerate 0 ls = List.enumerate 0 (take i ls @ ls ! i # drop (Suc i) ls)" by simp
  also have "\<dots> = List.enumerate 0 (take i ls) @ (i, ls ! i) # List.enumerate (Suc i) (drop (Suc i) ls)"
    using assms by (simp add: enumerate_append_eq)
  finally show ?thesis .
qed

lemma load_tables_error:
  assumes i: "i < length (nonblank_lines raw)"
    and bad: "line_offending md (nonblank_lines raw ! i)"
    and before: "\<forall>j<i. \<not> line_offending md (nonblank_lines raw ! j) \<and> line_parses pf (nonblank_lines raw ! j)"
  shows "load_tables pf raw md = Inl (line_error md i (nonblank_lines raw ! i))"
proof -
  let ?ls = "nonblank_lines raw"
  have pre: "\<forall>(j, l')\<in>set (List.enumerate 0 (take i ?ls)). \<not> line_offending md l' \<and> line_parses pf l'"
    using before i by (auto simp: in_set_enumerate_eq)
  show ?thesis
    unfolding load_tables_def Let_def enumerate_split [OF i] load_lines_first_bad [OF pre bad]
    by simp
qed

lemma load_tables_ok:
  assumes "\<forall>l\<in>set (nonblank_lines raw). \<not> line_offending md l \<and> line_parses pf l"
  shows "\<exists>pa pc. load_tables pf raw md = Inr (length (nonblank_lines raw), pa, pc) \<and>
           length pa = length (nonblank_lines raw) * md \<and> length pc = length (nonblank_lines raw) * md"
proof -
  let ?ls = "nonblank_lines raw"
  have "\<forall>(i, l)\<in>set (List.enumerate 0 ?ls). \<not> line_offending md l \<and> line_parses pf l"
    using assms by (auto simp: in_set_enumerate_eq)
  from load_lines_ok [OF this, of "replicate (length ?ls * md) 0" "replicate (length ?ls * md) 0"]
  show ?thesis by (auto simp: load_tables_def Let_def)
qed

text \<open>
  C9, as amended. Let the non-blank lines be numbered from 0 in file order, and let the
  fields of a line be its non-empty comma-separated fields. A field parses and encodes
  when \<open>float()\<close> accepts it and the product of its value with \<open>2 ^ 32\<close> is a finite
  float. If line \<open>i\<close> has an odd number of fields or more than \<open>max_degree\<close> pairs, and
  every earlier line is well-formed with fields that all parse and encode, then both
  loaders raise the format error of line \<open>i\<close>, which carries the number \<open>i\<close>. If every
  line is well-formed with fields that all parse and encode, both loads succeed;
  \<open>max_hops\<close> is the number of non-blank lines and each threshold array has length
  \<open>max_hops * max_degree\<close>.
\<close>

theorem load_apa_format:
  "(i < length (nonblank_lines raw) \<and> line_offending max_deg (nonblank_lines raw ! i) \<and>
    (\<forall>j<i. \<not> line_offending max_deg (nonblank_lines raw ! j) \<and> line_parses pf (nonblank_lines raw ! j))
    \<longrightarrow> (\<exists>err. load_apa pf raw max_deg = Inl err \<and> load_apa_murmur pf raw max_deg = Inl err \<and>
               error_line err = Some i)) \<and>
   ((\<forall>l\<in>set (nonblank_lines raw). \<not> line_offending max_deg l \<and> line_parses pf l)
    \<longrightarrow> (\<exists>apa apm. load_apa pf raw max_deg = Inr apa \<and> load_apa_murmur pf raw max_deg = Inr apm \<and>
           max_hops apa = length (nonblank_lines raw) \<and> max_degree apa = max_deg \<and>
           length (probs_a apa) = max_hops apa * max_deg \<and>
           length (probs_cum apa) = max_hops apa * max_deg \<and>
           m_max_hops apm = length (nonblank_lines raw) \<and> m_max_degree apm = max_deg \<and>
           length (add_thresh apm) = m_max_hops apm * max_deg \<and>
           length (replace_thresh apm) = m_max_hops apm * max_deg))"
proof (intro conjI impI)
  assume h: "i < length (nonblank_lines raw) \<and> line_offending max_deg (nonblank_lines raw ! i) \<and>
    (\<forall>j<i. \<not> line_offending max_deg (nonblank_lines raw ! j) \<and> line_parses pf (nonblank_lines raw ! j))"
  then have t: "load_tables pf raw max_deg = Inl (line_error max_deg i (nonblank_lines raw ! i))"
    using load_tables_error [of i raw max_deg pf] by blast
  have "error_line (line_error max_deg i (nonblank_lines raw ! i)) = Some i"
    by (simp add: line_error_def)
  then show "\<exists>err. load_apa pf raw max_deg = Inl err \<and> load_apa_murmur pf raw max_deg = Inl err \<and>
               error_line err = Some i"
    using t by (simp add: load_apa_def load_apa_murmur_def)
next
  assume "\<forall>l\<in>set (nonblank_lines raw). \<not> line_offending max_deg l \<and> line_parses pf l"
  from load_tables_ok [OF this] obtain pa pc where
    t: "load_tables pf raw max_deg = Inr (length (nonblank_lines raw), pa, pc)"
       "length pa = length (nonblank_lines raw) * max_deg" "length pc = length (nonblank_lines raw) * max_deg"
    by blast
  show "\<exists>apa apm. load_apa pf raw max_deg = Inr apa \<and> load_apa_murmur pf raw max_deg = Inr apm \<and>
           max_hops apa = length (nonblank_lines raw) \<and> max_degree apa = max_deg \<and>
           length (probs_a apa) = max_hops apa * max_deg \<and>
           length (probs_cum apa) = max_hops apa * max_deg \<and>
           m_max_hops apm = length (nonblank_lines raw) \<and> m_max_degree apm = max_deg \<and>
           length (add_thresh apm) = m_max_hops apm * max_deg \<and>
           length (replace_thresh apm) = m_max_hops apm * max_deg"
    using t by (simp add: load_apa_def load_apa_murmur_def)
qed

lemma float_table_fixed32:
  "\<exists>p v. float_table ''0.5'' = Some p \<and> fixed32 p = Inr v"
  "\<exists>p v. float_table ''0.75'' = Some p \<and> fixed32 p = Inr v"
  "\<exists>p v. float_table ''0'' = Some p \<and> fixed32 p = Inr v"
  "\<exists>p v. float_table ''1'' = Some p \<and> fixed32 p = Inr v"
  by (simp_all add: float_table_def fixed32_def scale32_def py_int_def DBL_MAX_def)

theorem load_apa_format_witness:
  "(\<exists>err. load_apa float_table [''0.5, 0.75'', '' '', ''0,1,0.5''] 2 = Inl err \<and> error_line err = Some 1) \<and>
   (\<exists>apa. load_apa float_table [''0.5, 0.75'', '' '', ''0,1,0.5,1''] 2 = Inr apa \<and>
      max_hops apa = 2 \<and> length (probs_a apa) = 4 \<and> length (probs_cum apa) = 4)"
proof -
  let ?bad = "[''0.5, 0.75'', '' '', ''0,1,0.5'']"
  let ?good = "[''0.5, 0.75'', '' '', ''0,1,0.5,1'']"
  have nb: "nonblank_lines ?bad = [''0.5, 0.75'', ''0,1,0.5'']"
    and ng: "nonblank_lines ?good = [''0.5, 0.75'', ''0,1,0.5,1'']"
    by code_simp+
  have p1: "apa_parts ''0.5, 0.75'' = [''0.5'', ''0.75'']"
    and p2: "apa_parts ''0,1,0.5'' = [''0'', ''1'', ''0.5'']"
    and p3: "apa_parts ''0,1,0.5,1'' = [''0'', ''1'', ''0.5'', ''1'']"
    by code_simp+
  have ok1: "\<not> line_offending 2 ''0.5, 0.75'' \<and> line_parses float_table ''0.5, 0.75''"
    unfolding line_offending_def line_parses_def p1 using float_table_fixed32 by simp
  have ok3: "\<not> line_offending 2 ''0,1,0.5,1'' \<and> line_parses float_table ''0,1,0.5,1''"
    unfolding line_offending_def line_parses_def p3 using float_table_fixed32 by simp
  have bad2: "line_offending 2 ''0,1,0.5''"
    unfolding line_offending_def p2 by simp
  have h1: "1 < length (nonblank_lines ?bad) \<and> line_offending 2 (nonblank_lines ?bad ! 1) \<and>
    (\<forall>j<1. \<not> line_offending 2 (nonblank_lines ?bad ! j) \<and> line_parses float_table (nonblank_lines ?bad ! j))"
    unfolding nb using ok1 bad2 by simp
  have h2: "\<forall>l\<in>set (nonblank_lines ?good). \<not> line_offending 2 l \<and> line_parses float_table l"
    unfolding ng using ok1 ok3 by simp
  from load_apa_format [of 1 ?bad 2 float_table, THEN conjunct1, THEN mp, OF h1]
  have a: "\<exists>err. load_apa float_table ?bad 2 = Inl err \<and> error_line err = Some 1" by blast
  from load_apa_format [of 0 ?good 2 float_table, THEN conjunct2, THEN mp, OF h2]
  have b: "\<exists>apa. load_apa float_table ?good 2 = Inr apa \<and>
      max_hops apa = 2 \<and> length (probs_a apa) = 4 \<and> length (probs_cum apa) = 4"
    unfolding ng by auto
  from a b show ?thesis by blast
qed

lemma load_one_line:
  "nonblank_lines [l] = [l'] \<Longrightarrow> load_tables pf [l] md = (case load_lines pf md [(0, l')] (replicate md 0, replicate md 0) of
        Inl err \<Rightarrow> Inl err | Inr (pa, pc) \<Rightarrow> Inr (1, pa, pc))"
  by (simp add: load_tables_def Let_def del: load_lines.simps split: sum.splits)

text \<open>
  The claim as stated fails in four ways, one input each.
  \<^item> A field of an earlier line is no number: on the lines \<open>x,y\<close> and \<open>1\<close>, \<open>float()\<close> raises
    on line 0 before the odd field count of line 1 is seen, and its error carries no
    line number.
  \<^item> Empty fields do not count: \<open>0.5,,0.75\<close> has three comma-separated fields, an odd
    number, and loads as one pair.
  \<^item> The number in the error counts non-blank lines from 0: with a blank second line, the
    third line of the file is reported as line 1.
  \<^item> A field that parses may still not convert: \<open>inf\<close> parses, and so does the finite
    \<open>2 ^ 1000\<close>, whose product with \<open>2 ^ 32\<close> is infinite; on both \<open>int()\<close> raises
    \<open>OverflowError\<close> although no line is malformed.
\<close>

theorem load_apa_as_stated_counterexample:
  "load_apa float_table [''x,y'', ''1''] 2 = Inl (FloatError ''x'') \<and>
   error_line (FloatError ''x'') = None \<and>
   length (apa_parts ''1'') = 1 \<and>
   split_on CHR '','' ''0.5,,0.75'' = [''0.5'', [], ''0.75''] \<and>
   load_apa float_table [''0.5,,0.75''] 1 =
     Inr \<lparr>max_hops = 1, max_degree = 1, probs_a = [2147483648], probs_cum = [3221225472]\<rparr> \<and>
   length (apa_parts ([''0.5, 0.75'', '' '', ''0,1,0.5''] ! 2)) = 3 \<and>
   load_apa float_table [''0.5, 0.75'', '' '', ''0,1,0.5''] 2 = Inl (OddColumns 1 3) \<and>
   error_line (OddColumns 1 3) = Some 1 \<and>
   float_table ''inf'' = Some PosInf \<and>
   length (apa_parts ''inf,inf'') = 2 \<and>
   load_apa float_table [''inf,inf''] 1 = Inl IntOverflow \<and>
   float_table ''10715086071862673209484250490600018105614048117055336074437503883703510511249361224931983788156958581275946729175531468251871452856923140435984577574698574803934567774824230985421074605062371141877954182153046474983581941267398767559165543946077062914571196477686542167660429831652624386837205668069376'' = Some (Finite (2 ^ 1000)) \<and>
   length (apa_parts ''10715086071862673209484250490600018105614048117055336074437503883703510511249361224931983788156958581275946729175531468251871452856923140435984577574698574803934567774824230985421074605062371141877954182153046474983581941267398767559165543946077062914571196477686542167660429831652624386837205668069376,10715086071862673209484250490600018105614048117055336074437503883703510511249361224931983788156958581275946729175531468251871452856923140435984577574698574803934567774824230985421074605062371141877954182153046474983581941267398767559165543946077062914571196477686542167660429831652624386837205668069376'') = 2 \<and>
   load_apa float_table [''10715086071862673209484250490600018105614048117055336074437503883703510511249361224931983788156958581275946729175531468251871452856923140435984577574698574803934567774824230985421074605062371141877954182153046474983581941267398767559165543946077062914571196477686542167660429831652624386837205668069376,10715086071862673209484250490600018105614048117055336074437503883703510511249361224931983788156958581275946729175531468251871452856923140435984577574698574803934567774824230985421074605062371141877954182153046474983581941267398767559165543946077062914571196477686542167660429831652624386837205668069376''] 1 = Inl IntOverflow"
proof -
  have f: "fixed32 (Finite (1 / 2)) = Inr 2147483648" "fixed32 (Finite (3 / 4)) = Inr 3221225472"
    "fixed32 (Finite 0) = Inr 0" "fixed32 (Finite 1) = Inr 0"
    "fixed32 PosInf = Inl IntOverflow" "fixed32 (Finite (2 ^ 1000)) = Inl IntOverflow"
    "fixed32 (Finite 10715086071862673209484250490600018105614048117055336074437503883703510511249361224931983788156958581275946729175531468251871452856923140435984577574698574803934567774824230985421074605062371141877954182153046474983581941267398767559165543946077062914571196477686542167660429831652624386837205668069376) = Inl IntOverflow"
    by (simp_all add: fixed32_def scale32_def py_int_def DBL_MAX_def)
  have c1: "load_apa float_table [''x,y'', ''1''] 2 = Inl (FloatError ''x'')" by code_simp
  have c1b: "length (apa_parts ''1'') = 1" by code_simp
  have c2a: "split_on CHR '','' ''0.5,,0.75'' = [''0.5'', [], ''0.75'']" by code_simp
  have n2: "nonblank_lines [''0.5,,0.75''] = [''0.5,,0.75'']" by code_simp
  have p2: "apa_parts ''0.5,,0.75'' = [''0.5'', ''0.75'']" by code_simp
  have c2: "load_apa float_table [''0.5,,0.75''] 1 =
     Inr \<lparr>max_hops = 1, max_degree = 1, probs_a = [2147483648], probs_cum = [3221225472]\<rparr>"
    unfolding load_apa_def load_one_line [OF n2]
    by (simp add: p2 float_table_def f Let_def)
  have c3a: "length (apa_parts ([''0.5, 0.75'', '' '', ''0,1,0.5''] ! 2)) = 3" by code_simp
  have n3: "nonblank_lines [''0.5, 0.75'', '' '', ''0,1,0.5''] = [''0.5, 0.75'', ''0,1,0.5'']" by code_simp
  have p3: "apa_parts ''0.5, 0.75'' = [''0.5'', ''0.75'']" "apa_parts ''0,1,0.5'' = [''0'', ''1'', ''0.5'']"
    by code_simp+
  have e3: "List.enumerate 0 [''0.5, 0.75'', ''0,1,0.5''] = [(0, ''0.5, 0.75''), (1, ''0,1,0.5'')]"
    by simp
  have c3: "load_apa float_table [''0.5, 0.75'', '' '', ''0,1,0.5''] 2 = Inl (OddColumns 1 3)"
    unfolding load_apa_def load_tables_def n3 Let_def e3
    by (simp add: p3 float_table_def f Let_def)
  have c4a: "float_table ''inf'' = Some PosInf" by (simp add: float_table_def)
  have p4: "apa_parts ''inf,inf'' = [''inf'', ''inf'']" by code_simp
  have n4: "nonblank_lines [''inf,inf''] = [''inf,inf'']" by code_simp
  have c4: "load_apa float_table [''inf,inf''] 1 = Inl IntOverflow"
    unfolding load_apa_def load_one_line [OF n4]
    by (simp add: p4 c4a f Let_def)
  have c5a: "float_table ''10715086071862673209484250490600018105614048117055336074437503883703510511249361224931983788156958581275946729175531468251871452856923140435984577574698574803934567774824230985421074605062371141877954182153046474983581941267398767559165543946077062914571196477686542167660429831652624386837205668069376'' = Some (Finite (2 ^ 1000))" by (simp add: float_table_def)
  have p5: "apa_parts ''10715086071862673209484250490600018105614048117055336074437503883703510511249361224931983788156958581275946729175531468251871452856923140435984577574698574803934567774824230985421074605062371141877954182153046474983581941267398767559165543946077062914571196477686542167660429831652624386837205668069376,10715086071862673209484250490600018105614048117055336074437503883703510511249361224931983788156958581275946729175531468251871452856923140435984577574698574803934567774824230985421074605062371141877954182153046474983581941267398767559165543946077062914571196477686542167660429831652624386837205668069376'' = [''10715086071862673209484250490600018105614048117055336074437503883703510511249361224931983788156958581275946729175531468251871452856923140435984577574698574803934567774824230985421074605062371141877954182153046474983581941267398767559165543946077062914571196477686542167660429831652624386837205668069376'', ''10715086071862673209484250490600018105614048117055336074437503883703510511249361224931983788156958581275946729175531468251871452856923140435984577574698574803934567774824230985421074605062371141877954182153046474983581941267398767559165543946077062914571196477686542167660429831652624386837205668069376'']" by code_simp
  have n5: "nonblank_lines [''10715086071862673209484250490600018105614048117055336074437503883703510511249361224931983788156958581275946729175531468251871452856923140435984577574698574803934567774824230985421074605062371141877954182153046474983581941267398767559165543946077062914571196477686542167660429831652624386837205668069376,10715086071862673209484250490600018105614048117055336074437503883703510511249361224931983788156958581275946729175531468251871452856923140435984577574698574803934567774824230985421074605062371141877954182153046474983581941267398767559165543946077062914571196477686542167660429831652624386837205668069376''] = [''10715086071862673209484250490600018105614048117055336074437503883703510511249361224931983788156958581275946729175531468251871452856923140435984577574698574803934567774824230985421074605062371141877954182153046474983581941267398767559165543946077062914571196477686542167660429831652624386837205668069376,10715086071862673209484250490600018105614048117055336074437503883703510511249361224931983788156958581275946729175531468251871452856923140435984577574698574803934567774824230985421074605062371141877954182153046474983581941267398767559165543946077062914571196477686542167660429831652624386837205668069376'']" by code_simp
  have c5: "load_apa float_table [''10715086071862673209484250490600018105614048117055336074437503883703510511249361224931983788156958581275946729175531468251871452856923140435984577574698574803934567774824230985421074605062371141877954182153046474983581941267398767559165543946077062914571196477686542167660429831652624386837205668069376,10715086071862673209484250490600018105614048117055336074437503883703510511249361224931983788156958581275946729175531468251871452856923140435984577574698574803934567774824230985421074605062371141877954182153046474983581941267398767559165543946077062914571196477686542167660429831652624386837205668069376''] 1 = Inl IntOverflow"
    unfolding load_apa_def load_one_line [OF n5]
    by (simp add: p5 c5a f Let_def)
  show ?thesis
    using c1 c1b c2a c2 c3a c3 c4a c4 c5a c5 by (simp add: p4 p5)
qed

lemma load_degrees_cells:
  "load_degrees pf parts h md ds (pa, pc) = Inr (pa', pc') \<Longrightarrow> distinct ds \<Longrightarrow>
   \<forall>d\<in>set ds. h * md + d < length pa \<and> h * md + d < length pc \<Longrightarrow>
   length pa' = length pa \<and> length pc' = length pc \<and>
   (\<forall>d\<in>set ds. \<exists>p q. pf (parts ! (2 * d)) = Some p \<and> fixed32 p = Inr (pa' ! (h * md + d)) \<and>
                       pf (parts ! (2 * d + 1)) = Some q \<and> fixed32 q = Inr (pc' ! (h * md + d))) \<and>
   (\<forall>k. (\<forall>d\<in>set ds. k \<noteq> h * md + d) \<longrightarrow> pa' ! k = pa ! k \<and> pc' ! k = pc ! k)"
proof (induction ds arbitrary: pa pc)
  case Nil
  then show ?case by simp
next
  case (Cons d ds)
  from Cons.prems(1) obtain p v q w where
    p: "pf (parts ! (2 * d)) = Some p" "fixed32 p = Inr v" and
    q: "pf (parts ! (2 * d + 1)) = Some q" "fixed32 q = Inr w" and
    run: "load_degrees pf parts h md ds (pa[h * md + d := v], pc[h * md + d := w]) = Inr (pa', pc')"
    by (auto simp: Let_def split: option.splits sum.splits)
  have ih: "length pa' = length (pa[h * md + d := v]) \<and> length pc' = length (pc[h * md + d := w]) \<and>
   (\<forall>d'\<in>set ds. \<exists>p q. pf (parts ! (2 * d')) = Some p \<and> fixed32 p = Inr (pa' ! (h * md + d')) \<and>
                       pf (parts ! (2 * d' + 1)) = Some q \<and> fixed32 q = Inr (pc' ! (h * md + d'))) \<and>
   (\<forall>k. (\<forall>d'\<in>set ds. k \<noteq> h * md + d') \<longrightarrow>
        pa' ! k = pa[h * md + d := v] ! k \<and> pc' ! k = pc[h * md + d := w] ! k)"
    by (rule Cons.IH [OF run]) (use Cons.prems in auto)
  have fresh: "\<forall>d'\<in>set ds. h * md + d \<noteq> h * md + d'" using Cons.prems(2) by auto
  have "pa' ! (h * md + d) = v" "pc' ! (h * md + d) = w"
    using ih fresh Cons.prems(3) by simp_all
  then have head: "\<exists>p q. pf (parts ! (2 * d)) = Some p \<and> fixed32 p = Inr (pa' ! (h * md + d)) \<and>
                       pf (parts ! (2 * d + 1)) = Some q \<and> fixed32 q = Inr (pc' ! (h * md + d))"
    using p q by simp
  have rest: "pa' ! k = pa ! k \<and> pc' ! k = pc ! k" if "\<forall>d'\<in>set (d # ds). k \<noteq> h * md + d'" for k
    using ih that by simp
  show ?case using ih head rest by simp
qed

lemma in_row_unique: "in_row md i k \<Longrightarrow> in_row md j k \<Longrightarrow> i = j"
proof (rule ccontr)
  assume a: "in_row md i k" "in_row md j k" "i \<noteq> j"
  then consider "Suc i \<le> j" | "Suc j \<le> i" by linarith
  then show False
  proof cases
    case 1
    then have "Suc i * md \<le> j * md" by (rule mult_le_mono1)
    then show False using a by (simp add: in_row_def)
  next
    case 2
    then have "Suc j * md \<le> i * md" by (rule mult_le_mono1)
    then show False using a by (simp add: in_row_def)
  qed
qed

lemma load_lines_cells:
  "load_lines pf md ils (pa, pc) = Inr (pa', pc') \<Longrightarrow> distinct (map fst ils) \<Longrightarrow>
   \<forall>(i, l)\<in>set ils. i * md + md \<le> length pa \<and> i * md + md \<le> length pc \<Longrightarrow>
   length pa' = length pa \<and> length pc' = length pc \<and>
   (\<forall>(i, l)\<in>set ils. \<forall>d < length (apa_parts l) div 2.
      \<exists>p q. pf (apa_parts l ! (2 * d)) = Some p \<and> fixed32 p = Inr (pa' ! (i * md + d)) \<and>
            pf (apa_parts l ! (2 * d + 1)) = Some q \<and> fixed32 q = Inr (pc' ! (i * md + d))) \<and>
   (\<forall>k. (\<forall>(i, l)\<in>set ils. \<not> in_row md i k) \<longrightarrow> pa' ! k = pa ! k \<and> pc' ! k = pc ! k)"
proof (induction ils arbitrary: pa pc)
  case Nil
  then show ?case by simp
next
  case (Cons il ils)
  obtain i l where il: "il = (i, l)" by (cases il) auto
  let ?n = "length (apa_parts l) div 2"
  from Cons.prems(1) obtain pa1 pc1 where
    n: "?n \<le> md" and
    deg: "load_degrees pf (apa_parts l) i md [0..<?n] (pa, pc) = Inr (pa1, pc1)" and
    run: "load_lines pf md ils (pa1, pc1) = Inr (pa', pc')"
    unfolding il by (auto simp: Let_def split: if_splits sum.splits)
  have bound: "i * md + md \<le> length pa" "i * md + md \<le> length pc"
    using Cons.prems(3) il by auto
  have c1: "length pa1 = length pa \<and> length pc1 = length pc \<and>
   (\<forall>d\<in>set [0..<?n]. \<exists>p q. pf (apa_parts l ! (2 * d)) = Some p \<and> fixed32 p = Inr (pa1 ! (i * md + d)) \<and>
                       pf (apa_parts l ! (2 * d + 1)) = Some q \<and> fixed32 q = Inr (pc1 ! (i * md + d))) \<and>
   (\<forall>k. (\<forall>d\<in>set [0..<?n]. k \<noteq> i * md + d) \<longrightarrow> pa1 ! k = pa ! k \<and> pc1 ! k = pc ! k)"
    by (rule load_degrees_cells [OF deg]) (use n bound in auto)
  have ih: "length pa' = length pa1 \<and> length pc' = length pc1 \<and>
   (\<forall>(i, l)\<in>set ils. \<forall>d < length (apa_parts l) div 2.
      \<exists>p q. pf (apa_parts l ! (2 * d)) = Some p \<and> fixed32 p = Inr (pa' ! (i * md + d)) \<and>
            pf (apa_parts l ! (2 * d + 1)) = Some q \<and> fixed32 q = Inr (pc' ! (i * md + d))) \<and>
   (\<forall>k. (\<forall>(i, l)\<in>set ils. \<not> in_row md i k) \<longrightarrow> pa' ! k = pa1 ! k \<and> pc' ! k = pc1 ! k)"
    by (rule Cons.IH [OF run]) (use Cons.prems c1 in auto)
  have other_rows: "\<forall>(j, l')\<in>set ils. \<not> in_row md j (i * md + d)" if "d < ?n" for d
  proof -
    have "in_row md i (i * md + d)" using that n by (simp add: in_row_def)
    moreover have "j \<noteq> i" if "(j, l') \<in> set ils" for j l'
      using Cons.prems(2) that unfolding il by force
    ultimately show ?thesis using in_row_unique by blast
  qed
  have head: "\<exists>p q. pf (apa_parts l ! (2 * d)) = Some p \<and> fixed32 p = Inr (pa' ! (i * md + d)) \<and>
            pf (apa_parts l ! (2 * d + 1)) = Some q \<and> fixed32 q = Inr (pc' ! (i * md + d))"
    if d: "d < ?n" for d
  proof -
    have "pa' ! (i * md + d) = pa1 ! (i * md + d) \<and> pc' ! (i * md + d) = pc1 ! (i * md + d)"
      using ih other_rows [OF d] by blast
    then show ?thesis using c1 d by simp
  qed
  have rest: "pa' ! k = pa ! k \<and> pc' ! k = pc ! k" if k: "\<forall>(j, l')\<in>set (il # ils). \<not> in_row md j k" for k
  proof -
    have "\<not> in_row md i k" using k il by simp
    then have "\<forall>d\<in>set [0..<?n]. k \<noteq> i * md + d" using n by (auto simp: in_row_def)
    then have "pa1 ! k = pa ! k \<and> pc1 ! k = pc ! k" using c1 by blast
    moreover have "pa' ! k = pa1 ! k \<and> pc' ! k = pc1 ! k" using ih k by simp
    ultimately show ?thesis by simp
  qed
  show ?case unfolding il using ih c1 head rest il by auto
qed

lemma load_tables_cells:
  assumes "load_tables pf raw md = Inr (mh, pa, pc)"
    and "h < length (nonblank_lines raw)" "d < length (apa_parts (nonblank_lines raw ! h)) div 2"
  shows "\<exists>p q. pf (apa_parts (nonblank_lines raw ! h) ! (2 * d)) = Some p \<and>
               fixed32 p = Inr (pa ! (h * md + d)) \<and>
               pf (apa_parts (nonblank_lines raw ! h) ! (2 * d + 1)) = Some q \<and>
               fixed32 q = Inr (pc ! (h * md + d))"
proof -
  let ?ls = "nonblank_lines raw"
  let ?z = "replicate (length ?ls * md) (0::int)"
  have run: "load_lines pf md (List.enumerate 0 ?ls) (?z, ?z) = Inr (pa, pc)"
    using assms(1) by (auto simp: load_tables_def Let_def split: sum.splits)
  have bnd: "\<forall>(i, l)\<in>set (List.enumerate 0 ?ls). i * md + md \<le> length ?z \<and> i * md + md \<le> length ?z"
  proof (clarify, simp add: in_set_enumerate_eq)
    fix i assume "i < length ?ls"
    then have "Suc i * md \<le> length ?ls * md" by (intro mult_le_mono1) simp
    then show "i * md + md \<le> length ?ls * md" by simp
  qed
  have mem: "(h, ?ls ! h) \<in> set (List.enumerate 0 ?ls)"
    using assms(2) by (simp add: in_set_enumerate_eq)
  from load_lines_cells [OF run _ bnd] mem assms(3) show ?thesis
    by (fastforce simp: distinct_enumerate)
qed

text \<open>
  C8. After a successful load, for every configured cell \<open>(h, d)\<close> and each of its two
  fields: when the field parses to a probability \<open>p\<close> in \<open>[0, 1)\<close>, the value stored at
  index \<open>h * max_degree + d\<close> is \<open>floor(p * 2^32) mod 2^32\<close>, the same in \<open>probs_a\<close> and
  \<open>add_thresh\<close>, and in \<open>probs_cum\<close> and \<open>replace_thresh\<close>.
\<close>

theorem loaders_fixed_point_encoding:
  assumes "load_apa pf raw max_deg = Inr apa" and "load_apa_murmur pf raw max_deg = Inr apm"
    and "h < length (nonblank_lines raw)"
    and "d < length (apa_parts (nonblank_lines raw ! h)) div 2"
  shows "(\<forall>p. pf (apa_parts (nonblank_lines raw ! h) ! (2 * d)) = Some (Finite p) \<and> 0 \<le> p \<and> p < 1 \<longrightarrow>
            probs_a apa ! (h * max_deg + d) = \<lfloor>p * 2 ^ 32\<rfloor> mod 2 ^ 32 \<and>
            add_thresh apm ! (h * max_deg + d) = \<lfloor>p * 2 ^ 32\<rfloor> mod 2 ^ 32) \<and>
         (\<forall>p. pf (apa_parts (nonblank_lines raw ! h) ! (2 * d + 1)) = Some (Finite p) \<and> 0 \<le> p \<and> p < 1 \<longrightarrow>
            probs_cum apa ! (h * max_deg + d) = \<lfloor>p * 2 ^ 32\<rfloor> mod 2 ^ 32 \<and>
            replace_thresh apm ! (h * max_deg + d) = \<lfloor>p * 2 ^ 32\<rfloor> mod 2 ^ 32)"
proof -
  from assms(1) obtain mh pa pc where
    t: "load_tables pf raw max_deg = Inr (mh, pa, pc)" and
    apa: "apa = \<lparr>max_hops = mh, max_degree = max_deg, probs_a = pa, probs_cum = pc\<rparr>"
    by (auto simp: load_apa_def split: sum.splits)
  from assms(2) t have
    apm: "apm = \<lparr>m_max_hops = mh, m_max_degree = max_deg, add_thresh = pa, replace_thresh = pc\<rparr>"
    by (auto simp: load_apa_murmur_def)
  from load_tables_cells [OF t assms(3,4)] obtain p q where
    p: "pf (apa_parts (nonblank_lines raw ! h) ! (2 * d)) = Some p" "fixed32 p = Inr (pa ! (h * max_deg + d))" and
    q: "pf (apa_parts (nonblank_lines raw ! h) ! (2 * d + 1)) = Some q" "fixed32 q = Inr (pc ! (h * max_deg + d))"
    by blast
  show ?thesis
    unfolding apa apm using p q fixed32_floor by auto
qed

theorem loaders_fixed_point_encoding_witness:
  "load_apa float_table [''0.5, 0.75''] 1 =
     Inr \<lparr>max_hops = 1, max_degree = 1, probs_a = [2147483648], probs_cum = [3221225472]\<rparr> \<and>
   load_apa_murmur float_table [''0.5, 0.75''] 1 =
     Inr \<lparr>m_max_hops = 1, m_max_degree = 1, add_thresh = [2147483648], replace_thresh = [3221225472]\<rparr> \<and>
   (2147483648::int) = \<lfloor>(1 / 2 :: real) * 2 ^ 32\<rfloor> mod 2 ^ 32 \<and>
   (3221225472::int) = \<lfloor>(3 / 4 :: real) * 2 ^ 32\<rfloor> mod 2 ^ 32"
proof -
  let ?raw = "[''0.5, 0.75'']"
  let ?apa = "\<lparr>max_hops = 1, max_degree = 1, probs_a = [2147483648], probs_cum = [3221225472]\<rparr>"
  let ?apm = "\<lparr>m_max_hops = 1, m_max_degree = 1, add_thresh = [2147483648], replace_thresh = [3221225472]\<rparr>"
  have nb: "nonblank_lines ?raw = [''0.5, 0.75'']" by code_simp
  have pt: "apa_parts ''0.5, 0.75'' = [''0.5'', ''0.75'']" by code_simp
  have f: "fixed32 (Finite (1 / 2)) = Inr 2147483648" "fixed32 (Finite (3 / 4)) = Inr 3221225472"
    by (simp_all add: fixed32_def scale32_def py_int_def DBL_MAX_def)
  have en: "List.enumerate 0 [''0.5, 0.75''] = [(0, ''0.5, 0.75'')]" by simp
  have t: "load_tables float_table ?raw 1 = Inr (1, [2147483648], [3221225472])"
    unfolding load_tables_def nb Let_def en
    by (simp add: pt float_table_def f Let_def)
  have l1: "load_apa float_table ?raw 1 = Inr ?apa" unfolding load_apa_def t by simp
  have l2: "load_apa_murmur float_table ?raw 1 = Inr ?apm" unfolding load_apa_murmur_def t by simp
  have h: "0 < length (nonblank_lines ?raw)" unfolding nb by simp
  have d: "0 < length (apa_parts (nonblank_lines ?raw ! 0)) div 2" unfolding nb by (simp add: pt)
  have a: "float_table (apa_parts (nonblank_lines ?raw ! 0) ! (2 * 0)) = Some (Finite (1 / 2))"
    unfolding nb by (simp add: pt float_table_def)
  have b: "float_table (apa_parts (nonblank_lines ?raw ! 0) ! (2 * 0 + 1)) = Some (Finite (3 / 4))"
    unfolding nb by (simp add: pt float_table_def)
  from loaders_fixed_point_encoding [OF l1 l2 h d] a b
  have "probs_a ?apa ! (0 * 1 + 0) = \<lfloor>(1 / 2 :: real) * 2 ^ 32\<rfloor> mod 2 ^ 32"
    and "probs_cum ?apa ! (0 * 1 + 0) = \<lfloor>(3 / 4 :: real) * 2 ^ 32\<rfloor> mod 2 ^ 32"
    by auto
  then show ?thesis using l1 l2 by simp
qed

section \<open>Properties of the decision policies\<close>

lemma sign_bit_cases: "sign_bit x = 0 \<or> sign_bit x = 1"
  unfolding sign_bit_def by (rule and1_cases)

lemma p4_replace_decision_same_sign:
  "p4_replace_decision h c \<longleftrightarrow> sign_bit (h AND 0xFFFFFFFF) = sign_bit (c AND 0xFFFFFFFF)"
  using sign_bit_cases [of "h AND 0xFFFFFFFF"] sign_bit_cases [of "c AND 0xFFFFFFFF"]
  by (auto simp: p4_replace_decision_def Let_def)

text \<open>
  C2. The claim: for all 32-bit \<open>h\<close> and \<open>replace_threshold\<close>, Policy B decides REPLACE
  exactly when the sign-overflow rule of ADD, applied to \<open>replace_threshold - h\<close>, holds.
  The code computes that subtraction and never reads it: it decides REPLACE exactly when
  the two sign bits are equal (\<open>p4_replace_decision_same_sign\<close>). At \<open>h = 0\<close>, \<open>replace_threshold = 1\<close> the code decides
  REPLACE and the rule does not.
\<close>

theorem p4_replace_decision_not_symmetric_rule:
  "p4_replace_decision 0 1 \<and> \<not> replace_rule_spec 0 1"
  by (simp add: p4_replace_decision_def replace_rule_spec_def sign_bit_def Let_def)

text \<open>
  C3. Policy A and Policy B are not equivalent: at the 32-bit triple
  \<open>h = 0\<close>, \<open>add_threshold = 0\<close>, \<open>replace_threshold = 1\<close> Policy A skips and Policy B
  replaces.
\<close>

theorem policies_not_equivalent:
  "\<exists>h a r. 0 \<le> h \<and> h < 2 ^ 32 \<and> 0 \<le> a \<and> a < 2 ^ 32 \<and> 0 \<le> r \<and> r < 2 ^ 32
     \<and> policy_a h a r \<noteq> policy_b h a r"
proof -
  have "policy_a 0 0 1 = SKIP"
    by (simp add: policy_a_def)
  moreover have "policy_b 0 0 1 = REPLACE"
    by (simp add: policy_b_def p4_add_decision_def p4_replace_decision_def sign_bit_def Let_def)
  ultimately have "policy_a 0 0 1 \<noteq> policy_b 0 0 1"
    by simp
  then show ?thesis
    by (intro exI [of _ 0] exI [of _ 1]) simp
qed

end
